theory Spec2Isabelle
  imports Main "HOL-Library.Word"
begin

section \<open>Entity ids (config.h)\<close>

text \<open>
  \<^verbatim>\<open>typedef uint32_t id_t; const id_t MAX_ID = std::numeric_limits<id_t>::max();\<close>
  Ids are 32-bit words. A \<^verbatim>\<open>std::vector\<close> is a list, its \<^verbatim>\<open>size()\<close> (a
  \<^verbatim>\<open>size_t\<close>, taken wider than an id as on a 64-bit platform) the list's length; an
  id used as an index is read with \<open>unat\<close>, and a size stored into an \<^verbatim>\<open>id_t\<close> is
  truncated with \<open>word_of_nat\<close>. A write past the end of a vector lands in whatever
  the allocator placed behind it: the behaviour of the program is undefined from there
  on, and an operation that does so has the result \<open>None\<close>.
\<close>

type_synonym id_t = "32 word"

definition MAX_ID :: id_t where
  "MAX_ID = 4294967295"

section \<open>SparseSet (sparse\_set.h)\<close>

datatype BindError = INVALID_KEY | DEAD_ENTITY

record 'v sparse_set =
  sparse :: "id_t list"
  dense :: "id_t list"
  data :: "'v list"

definition SparseSet :: "'v sparse_set" where
  "SparseSet = \<lparr>sparse = [], dense = [], data = []\<rparr>"

definition out_of_bounds :: "'v sparse_set \<Rightarrow> id_t \<Rightarrow> bool" where
  "out_of_bounds s key = (length (sparse s) \<le> unat key)"

definition is_null_key :: "id_t \<Rightarrow> bool" where
  "is_null_key key = (key = MAX_ID)"

definition has_data :: "'v sparse_set \<Rightarrow> id_t \<Rightarrow> bool" where
  "has_data s key =
     (if out_of_bounds s key \<or> is_null_key (sparse s ! unat key) then False else True)"

definition get_data :: "'v sparse_set \<Rightarrow> id_t \<Rightarrow> 'v option" where
  "get_data s key =
     (if has_data s key then Some (data s ! unat (sparse s ! unat key)) else None)"

text \<open>
  \<^verbatim>\<open>v.resize(n)\<close>: the first \<open>n\<close> cells of \<open>v\<close>, new cells value-initialised (\<open>z\<close>).
\<close>

definition resize :: "'a list \<Rightarrow> nat \<Rightarrow> 'a \<Rightarrow> 'a list" where
  "resize v n z = take n v @ replicate (n - length v) z"

text \<open>
  \<^verbatim>\<open>std::fill(v.begin() + a, v.begin() + b, x)\<close> writes \<open>x\<close> into the cells \<open>a, \<dots>, b - 1\<close>.
  It stays inside the vector only when \<open>a \<le> b \<le> length v\<close>; otherwise it writes past
  \<^verbatim>\<open>end()\<close>, which is \<open>None\<close>.
\<close>

definition fill :: "'a list \<Rightarrow> nat \<Rightarrow> nat \<Rightarrow> 'a \<Rightarrow> 'a list option" where
  "fill v a b x =
     (if a \<le> b \<and> b \<le> length v
      then Some (map (\<lambda>i. if a \<le> i \<and> i < b then x else v ! i) [0..<length v])
      else None)"

text \<open>
  \<^verbatim>\<open>rezise(key)\<close>, called only when \<open>key\<close> is out of bounds:
  \<^verbatim>\<open>from = size; to = key - size; resize(key + 1); fill(begin + from, end + to, MAX_ID)\<close>.
  The fill runs from offset \<open>from\<close> to offset \<open>(key + 1) + to\<close> of the resized vector:
  \<open>rezise_fill_range\<close> is that pair of offsets and \<open>rezise_writes\<close> the offsets written.
\<close>

definition rezise_fill_range :: "'v sparse_set \<Rightarrow> id_t \<Rightarrow> nat \<times> nat" where
  "rezise_fill_range s key =
     (let from = length (sparse s);
          to = unat key - length (sparse s)
      in (from, unat (key + 1) + to))"

definition rezise_writes :: "'v sparse_set \<Rightarrow> id_t \<Rightarrow> nat list" where
  "rezise_writes s key = [fst (rezise_fill_range s key)..<snd (rezise_fill_range s key)]"

definition rezise :: "'v sparse_set \<Rightarrow> id_t \<Rightarrow> 'v sparse_set option" where
  "rezise s key =
     (let resized = resize (sparse s) (unat (key + 1)) 0
      in case fill resized (fst (rezise_fill_range s key))
                           (snd (rezise_fill_range s key)) MAX_ID of
           None \<Rightarrow> None
         | Some filled \<Rightarrow> Some (s\<lparr>sparse := filled\<rparr>))"

definition bind ::
  "'v sparse_set \<Rightarrow> id_t \<Rightarrow> 'v \<Rightarrow> ('v sparse_set \<times> BindError option) option" where
  "bind s key v =
     (if is_null_key key then Some (s, Some INVALID_KEY)
      else
        case (if out_of_bounds s key then rezise s key else Some s) of
          None \<Rightarrow> None
        | Some s1 \<Rightarrow>
            if \<not> has_data s1 key
            then Some (s1\<lparr>sparse := (sparse s1)[unat key := word_of_nat (length (dense s1))],
                         dense := dense s1 @ [key],
                         data := data s1 @ [v]\<rparr>, None)
            else Some (s1\<lparr>data := (data s1)[unat (sparse s1 ! unat key) := v]\<rparr>, None))"

definition swap :: "'a list \<Rightarrow> nat \<Rightarrow> nat \<Rightarrow> 'a list" where
  "swap xs i j = xs[i := xs ! j, j := xs ! i]"

definition unbind :: "'v sparse_set \<Rightarrow> id_t \<Rightarrow> 'v sparse_set \<times> 'v option" where
  "unbind s key =
     (if has_data s key
      then
        let packed_index = sparse s ! unat key;
            sparse1 = (sparse s)[unat (last (dense s)) := packed_index];
            sparse2 = sparse1[unat key := MAX_ID];
            dense1 = swap (dense s) (unat packed_index) (length (dense s) - 1);
            data1 = swap (data s) (unat packed_index) (length (data s) - 1)
        in (\<lparr>sparse = sparse2, dense = butlast dense1, data = butlast data1\<rparr>,
            Some (last data1))
      else (s, None))"

definition delete_component :: "'v sparse_set \<Rightarrow> id_t \<Rightarrow> 'v sparse_set" where
  "delete_component s entity = fst (unbind s entity)"

subsection \<open>The invariants of a sparse set\<close>

text \<open>
  The sparse-set invariants of the data model: \<open>dense\<close> and \<open>data\<close> run in parallel,
  no id occurs twice in \<open>dense\<close>, the null id never occurs in it, every dense index
  \<open>i\<close> is the content of the sparse cell of \<open>dense[i]\<close>, and every sparse cell of an id
  that is not the null id points back to that id.
\<close>

definition ss_inv :: "'v sparse_set \<Rightarrow> bool" where
  "ss_inv s \<longleftrightarrow>
     length (dense s) = length (data s) \<and>
     distinct (dense s) \<and>
     MAX_ID \<notin> set (dense s) \<and>
     (\<forall>i < length (dense s).
        unat (dense s ! i) < length (sparse s) \<and> unat (sparse s ! unat (dense s ! i)) = i) \<and>
     (\<forall>key. unat key < length (sparse s) \<and> sparse s ! unat key \<noteq> MAX_ID \<longrightarrow>
        unat (sparse s ! unat key) < length (dense s) \<and>
        dense s ! unat (sparse s ! unat key) = key)"

subsection \<open>Sequences of operations on one sparse set\<close>

datatype 'v ss_op = Bind id_t 'v | Unbind id_t

fun op_key :: "'v ss_op \<Rightarrow> id_t" where
  "op_key (Bind key v) = key"
| "op_key (Unbind key) = key"

fun apply_op :: "'v sparse_set \<Rightarrow> 'v ss_op \<Rightarrow> 'v sparse_set option" where
  "apply_op s (Bind key v) = map_option fst (bind s key v)"
| "apply_op s (Unbind key) = Some (fst (unbind s key))"

text \<open>
  The states after each operation of a sequence, in order; \<open>None\<close> when an operation of
  the sequence writes past the end of a vector.
\<close>

fun run_ops :: "'v sparse_set \<Rightarrow> 'v ss_op list \<Rightarrow> 'v sparse_set list option" where
  "run_ops s [] = Some []"
| "run_ops s (x # xs) =
     (case apply_op s x of
        None \<Rightarrow> None
      | Some s1 \<Rightarrow>
          (case run_ops s1 xs of
             None \<Rightarrow> None
           | Some ss \<Rightarrow> Some (s1 # ss)))"

subsection \<open>The reference algorithm of unbind\<close>

text \<open>
  The specification's \<open>has\<close> and \<open>unbind\<close>, following its words: let \<open>i = sparse[key]\<close>
  and \<open>last = len(dense) - 1\<close>; swap \<open>dense[i]\<close> with \<open>dense[last]\<close> and \<open>data[i]\<close> with
  \<open>data[last]\<close>; set \<open>sparse[dense[i]] = i\<close>; set \<open>sparse[key] = NULL_ID\<close>; pop both tails
  and return the popped data element.
\<close>

definition has_spec :: "'v sparse_set \<Rightarrow> id_t \<Rightarrow> bool" where
  "has_spec s key \<longleftrightarrow>
     key \<noteq> MAX_ID \<and> unat key < length (sparse s) \<and> sparse s ! unat key \<noteq> MAX_ID"

definition unbind_spec :: "'v sparse_set \<Rightarrow> id_t \<Rightarrow> 'v sparse_set \<times> 'v option" where
  "unbind_spec s key =
     (if \<not> has_spec s key then (s, None)
      else
        let i = sparse s ! unat key;
            lst = length (dense s) - 1;
            dense1 = swap (dense s) (unat i) lst;
            data1 = swap (data s) (unat i) lst;
            sparse1 = (sparse s)[unat (dense1 ! unat i) := i];
            sparse2 = sparse1[unat key := MAX_ID]
        in (\<lparr>sparse = sparse2, dense = butlast dense1, data = butlast data1\<rparr>,
            Some (last data1)))"

section \<open>Registry (registry.h)\<close>

text \<open>
  The registry holds the head of the implicit list of dead entities, the entity array,
  and one sparse set per component type, keyed by the type's name. Component values of
  all types are taken from one type \<open>'v\<close>. A \<^verbatim>\<open>shared_ptr\<close> to a store is modelled by
  writing the store back under its key after a call through the pointer.
\<close>

record 'v registry =
  current :: id_t
  entities :: "id_t list"
  component_managers :: "string \<rightharpoonup> 'v sparse_set"

definition Registry :: "'v registry" where
  "Registry = \<lparr>current = MAX_ID, entities = [], component_managers = Map.empty\<rparr>"

definition make_new_entity :: "'v registry \<Rightarrow> id_t \<times> 'v registry" where
  "make_new_entity r =
     (let new_entity = word_of_nat (length (entities r))
      in (new_entity, r\<lparr>entities := entities r @ [new_entity]\<rparr>))"

definition recycle_entity :: "'v registry \<Rightarrow> id_t \<times> 'v registry" where
  "recycle_entity r =
     (let recycled_entity = current r
      in (recycled_entity,
          r\<lparr>current := entities r ! unat recycled_entity,
            entities := (entities r)[unat recycled_entity := recycled_entity]\<rparr>))"

definition make_entity :: "'v registry \<Rightarrow> id_t \<times> 'v registry" where
  "make_entity r = (if current r = MAX_ID then make_new_entity r else recycle_entity r)"

definition is_alive :: "'v registry \<Rightarrow> id_t \<Rightarrow> bool" where
  "is_alive r entity \<longleftrightarrow>
     unat entity < length (entities r) \<and> entities r ! unat entity = entity"

definition mark_as_death :: "'v registry \<Rightarrow> id_t \<Rightarrow> 'v registry" where
  "mark_as_death r entity =
     r\<lparr>entities := (entities r)[unat entity := current r], current := entity\<rparr>"

definition delete_all_components :: "'v registry \<Rightarrow> id_t \<Rightarrow> 'v registry" where
  "delete_all_components r entity =
     r\<lparr>component_managers :=
         (\<lambda>type_name. map_option (\<lambda>s. delete_component s entity)
                                  (component_managers r type_name))\<rparr>"

definition kill_entity :: "'v registry \<Rightarrow> id_t \<Rightarrow> 'v registry" where
  "kill_entity r entity =
     (if is_alive r entity
      then delete_all_components (mark_as_death r entity) entity
      else r)"

definition get_component_manager :: "'v registry \<Rightarrow> string \<Rightarrow> 'v sparse_set option" where
  "get_component_manager r type_name = component_managers r type_name"

definition make_component_manager :: "'v registry \<Rightarrow> string \<Rightarrow> 'v registry \<times> 'v sparse_set" where
  "make_component_manager r type_name =
     (r\<lparr>component_managers := (component_managers r)(type_name \<mapsto> SparseSet)\<rparr>, SparseSet)"

definition has_component :: "'v registry \<Rightarrow> string \<Rightarrow> id_t \<Rightarrow> bool" where
  "has_component r T entity =
     (case get_component_manager r T of
        Some manager \<Rightarrow> has_data manager entity
      | None \<Rightarrow> False)"

definition get_component :: "'v registry \<Rightarrow> string \<Rightarrow> id_t \<Rightarrow> 'v option" where
  "get_component r T entity =
     (case get_component_manager r T of
        Some manager \<Rightarrow> get_data manager entity
      | None \<Rightarrow> None)"

definition registry_bind ::
  "'v registry \<Rightarrow> string \<Rightarrow> id_t \<Rightarrow> 'v \<Rightarrow> ('v registry \<times> BindError option) option" where
  "registry_bind r T entity v =
     (if \<not> is_alive r entity then Some (r, Some DEAD_ENTITY)
      else
        let (r1, manager) =
              (case get_component_manager r T of
                 Some m \<Rightarrow> (r, m)
               | None \<Rightarrow> make_component_manager r T)
        in case bind manager entity v of
             None \<Rightarrow> None
           | Some (manager1, res) \<Rightarrow>
               Some (r1\<lparr>component_managers := (component_managers r1)(T \<mapsto> manager1)\<rparr>,
                     res))"

definition registry_unbind :: "'v registry \<Rightarrow> string \<Rightarrow> id_t \<Rightarrow> 'v registry \<times> 'v option" where
  "registry_unbind r T entity =
     (case get_component_manager r T of
        None \<Rightarrow> (r, None)
      | Some manager \<Rightarrow>
          let (manager1, component) = unbind manager entity
          in (r\<lparr>component_managers := (component_managers r)(T \<mapsto> manager1)\<rparr>, component))"

definition entities_with_component :: "'v registry \<Rightarrow> string \<Rightarrow> id_t list" where
  "entities_with_component r T =
     (case get_component_manager r T of
        None \<Rightarrow> []
      | Some manager \<Rightarrow> filter (\<lambda>entity. has_data manager entity) (entities r))"

subsection \<open>Queries\<close>

text \<open>
  A type list is a list of type names. \<^verbatim>\<open>has_components\<close> is the fold
  \<^verbatim>\<open>(registry.has_component<List>(entity) && ...)\<close>; \<^verbatim>\<open>with_components\<close> copies the
  values of the entity array that pass it, and nothing for the empty type list.
\<close>

definition has_components :: "'v registry \<Rightarrow> string list \<Rightarrow> id_t \<Rightarrow> bool" where
  "has_components r List entity = list_all (\<lambda>T. has_component r T entity) List"

definition with_components :: "'v registry \<Rightarrow> string list \<Rightarrow> id_t list" where
  "with_components r Components =
     (if Components \<noteq> [] then filter (has_components r Components) (entities r) else [])"

text \<open>\<^verbatim>\<open>std::set_difference\<close>: the merge loop of the standard library.\<close>

fun set_difference :: "id_t list \<Rightarrow> id_t list \<Rightarrow> id_t list" where
  "set_difference [] ys = []"
| "set_difference (x # xs) [] = x # xs"
| "set_difference (x # xs) (y # ys) =
     (if x < y then x # set_difference xs (y # ys)
      else if y < x then set_difference (x # xs) ys
      else set_difference xs ys)"

text \<open>
  \<^verbatim>\<open>convert_and_unwrapp\<close> builds the tuple
  \<^verbatim>\<open>make_tuple(registry.get_component<List>(entity).value() ...)\<close>: one field per type
  of the list, each the component a reference points to; \<^verbatim>\<open>value()\<close> on an empty
  optional throws, which is \<open>None\<close> here. A tuple is the list of its fields.
\<close>

fun convert_and_unwrapp :: "'v registry \<Rightarrow> string list \<Rightarrow> id_t \<Rightarrow> 'v list option" where
  "convert_and_unwrapp r [] entity = Some []"
| "convert_and_unwrapp r (T # Ts) entity =
     (case get_component r T entity of
        None \<Rightarrow> None
      | Some c \<Rightarrow>
          (case convert_and_unwrapp r Ts entity of
             None \<Rightarrow> None
           | Some cs \<Rightarrow> Some (c # cs)))"

text \<open>\<^verbatim>\<open>std::transform\<close> with a function that may throw.\<close>

fun transform :: "('a \<Rightarrow> 'b option) \<Rightarrow> 'a list \<Rightarrow> 'b list option" where
  "transform f [] = Some []"
| "transform f (x # xs) =
     (case f x of
        None \<Rightarrow> None
      | Some y \<Rightarrow> (case transform f xs of None \<Rightarrow> None | Some ys \<Rightarrow> Some (y # ys)))"

text \<open>
  \<^verbatim>\<open>query\<close>: \<open>required_entities\<close> is the vector of ids the result is built from, and
  \<open>query\<close> the vector of tuples returned.
\<close>

definition required_entities :: "'v registry \<Rightarrow> string list \<Rightarrow> string list \<Rightarrow> id_t list" where
  "required_entities r WithComponents WithoutComponents =
     (let desired_entities = with_components r WithComponents;
          undesirable_entities = with_components r WithoutComponents
      in set_difference desired_entities undesirable_entities)"

definition query :: "'v registry \<Rightarrow> string list \<Rightarrow> string list \<Rightarrow> 'v list list option" where
  "query r WithComponents WithoutComponents =
     transform (convert_and_unwrapp r WithComponents)
               (required_entities r WithComponents WithoutComponents)"

subsection \<open>Runs of the public operations\<close>

fun kill_all :: "'v registry \<Rightarrow> id_t list \<Rightarrow> 'v registry" where
  "kill_all r [] = r"
| "kill_all r (k # ks) = kill_all (kill_entity r k) ks"

fun make_entities :: "nat \<Rightarrow> 'v registry \<Rightarrow> id_t list \<times> 'v registry" where
  "make_entities 0 r = ([], r)"
| "make_entities (Suc n) r =
     (let (e, r1) = make_entity r;
          (es, r2) = make_entities n r1
      in (e # es, r2))"

text \<open>
  The public calls that change the registry (\<open>is_alive\<close>, \<open>has_component\<close>,
  \<open>get_component\<close> and the queries are \<^verbatim>\<open>const\<close>), and the state after a sequence of
  them; \<open>None\<close> when a call of the sequence writes past the end of a vector.
\<close>

datatype 'v public_call =
  MakeEntity
| KillEntity id_t
| BindComponent string id_t 'v
| UnbindComponent string id_t

fun call :: "'v registry \<Rightarrow> 'v public_call \<Rightarrow> 'v registry option" where
  "call r MakeEntity = Some (snd (make_entity r))"
| "call r (KillEntity entity) = Some (kill_entity r entity)"
| "call r (BindComponent T entity v) = map_option fst (registry_bind r T entity v)"
| "call r (UnbindComponent T entity) = Some (fst (registry_unbind r T entity))"

fun calls :: "'v registry \<Rightarrow> 'v public_call list \<Rightarrow> 'v registry option" where
  "calls r [] = Some r"
| "calls r (c # cs) = (case call r c of None \<Rightarrow> None | Some r1 \<Rightarrow> calls r1 cs)"

text \<open>
  The registry states reachable from a fresh registry by public calls whose behaviour is
  defined.
\<close>

inductive reachable :: "'v registry \<Rightarrow> bool" where
  reachable_init: "reachable Registry"
| reachable_make: "reachable r \<Longrightarrow> reachable (snd (make_entity r))"
| reachable_kill: "reachable r \<Longrightarrow> reachable (kill_entity r entity)"
| reachable_bind:
    "reachable r \<Longrightarrow> registry_bind r T entity v = Some (r1, res) \<Longrightarrow> reachable r1"
| reachable_unbind: "reachable r \<Longrightarrow> reachable (fst (registry_unbind r T entity))"

text \<open>
  The free list inside the entity array. A slot is dead when it is in range and does not
  hold its own index; its content is then the link to the next dead slot.
\<close>

definition dead :: "'v registry \<Rightarrow> id_t \<Rightarrow> bool" where
  "dead r e \<longleftrightarrow> unat e < length (entities r) \<and> entities r ! unat e \<noteq> e"

definition link :: "'v registry \<Rightarrow> id_t \<Rightarrow> id_t" where
  "link r e = entities r ! unat e"

definition free_list_inv :: "'v registry \<Rightarrow> bool" where
  "free_list_inv r \<longleftrightarrow>
     (current r = MAX_ID \<or> dead r (current r)) \<and>
     (\<forall>e. dead r e \<longrightarrow> link r e = MAX_ID \<or> dead r (link r e)) \<and>
     (\<forall>e. dead r e \<longrightarrow> current r = MAX_ID \<or> link r e \<noteq> current r) \<and>
     (\<forall>e e'. dead r e \<and> dead r e' \<and> e \<noteq> e' \<and> link r e = link r e' \<longrightarrow> link r e = MAX_ID)"

definition stores_inv :: "'v registry \<Rightarrow> bool" where
  "stores_inv r \<longleftrightarrow>
     (\<forall>T s. component_managers r T = Some s \<longrightarrow> ss_inv s) \<and>
     (\<forall>T s e. component_managers r T = Some s \<and> has_data s e \<longrightarrow> is_alive r e)"

subsection \<open>Scenarios\<close>

text \<open>
  The registry of the test \<^verbatim>\<open>CanQueryComponents\<close>: entities 0 and 1 both carry a
  \<^verbatim>\<open>uint32_t\<close> and a \<^verbatim>\<open>Vec2\<close>, and entity 0 a \<^verbatim>\<open>char\<close> as well. Component values
  are numbered. \<open>query_scenario_calls\<close> are the calls of the test and \<open>query_scenario\<close>
  is the state they lead to.
\<close>

definition query_scenario_calls :: "nat public_call list" where
  "query_scenario_calls =
     [MakeEntity, MakeEntity,
      BindComponent ''uint32_t'' 0 10, BindComponent ''uint32_t'' 1 11,
      BindComponent ''Vec2'' 0 20, BindComponent ''Vec2'' 1 21,
      BindComponent ''char'' 0 97]"

definition query_scenario :: "nat registry" where
  "query_scenario =
     \<lparr>current = MAX_ID, entities = [0, 1],
      component_managers =
        [''uint32_t'' \<mapsto> \<lparr>sparse = [0, 1], dense = [0, 1], data = [10, 11]\<rparr>,
         ''Vec2'' \<mapsto> \<lparr>sparse = [0, 1], dense = [0, 1], data = [20, 21]\<rparr>,
         ''char'' \<mapsto> \<lparr>sparse = [0], dense = [0], data = [97]\<rparr>]\<rparr>"

text \<open>A registry whose entity 0 was killed and is the head of the free list.\<close>

definition recycling_scenario :: "nat registry" where
  "recycling_scenario = kill_entity (snd (make_entities 2 Registry)) 0"

text \<open>
  A registry after \<open>2 ^ 32\<close> calls of \<open>make_entity\<close>, and one after \<open>2 ^ 32 + 1\<close> calls
  whose entity 0 was then bound a component.
\<close>

definition exhausted_registry :: "nat registry" where
  "exhausted_registry = snd (make_entities 4294967296 Registry)"

definition wrapped_registry :: "nat registry" where
  "wrapped_registry =
     (snd (make_entities 4294967297 Registry))
       \<lparr>component_managers := [''Vec2'' \<mapsto> \<lparr>sparse = [0], dense = [0], data = [20]\<rparr>]\<rparr>"

text \<open>
  A sparse set after the binds of the keys 0 to 9 in order, and a registry after 40
  calls of \<open>make_entity\<close> and one bind of a \<^verbatim>\<open>Vec2\<close> to entity 0.
\<close>

definition ten_binds :: "nat ss_op list" where
  "ten_binds =
     [Bind 0 100, Bind 1 101, Bind 2 102, Bind 3 103, Bind 4 104,
      Bind 5 105, Bind 6 106, Bind 7 107, Bind 8 108, Bind 9 109]"

definition ten_bound :: "nat sparse_set" where
  "ten_bound =
     \<lparr>sparse = [0, 1, 2, 3, 4, 5, 6, 7, 8, 9],
      dense = [0, 1, 2, 3, 4, 5, 6, 7, 8, 9],
      data = [100, 101, 102, 103, 104, 105, 106, 107, 108, 109]\<rparr>"

definition forty_entities_calls :: "nat public_call list" where
  "forty_entities_calls = replicate 40 MakeEntity @ [BindComponent ''Vec2'' 0 20]"

definition forty_entities :: "nat registry" where
  "forty_entities =
     (snd (make_entities 40 Registry))
       \<lparr>component_managers := [''Vec2'' \<mapsto> \<lparr>sparse = [0], dense = [0], data = [20]\<rparr>]\<rparr>"

section \<open>Properties of the sparse set\<close>

lemma MAX_ID_minus1: "MAX_ID = - 1"
  by (simp add: MAX_ID_def)

lemma unat_MAX_ID: "unat MAX_ID = 4294967295"
  by (simp add: MAX_ID_def)

lemma unat_id_less: "unat (k :: id_t) < 4294967296"
  using unsigned_less [of k] by simp

lemma unat_succ_id: "key \<noteq> MAX_ID \<Longrightarrow> unat (key + 1) = Suc (unat key)"
  using unatSuc [of key] by (simp add: MAX_ID_minus1 add.commute add_eq_0_iff)

lemma unat_less_MAX: "key \<noteq> MAX_ID \<Longrightarrow> unat key < 4294967295"
  by (metis MAX_ID_minus1 unat_MAX_ID unat_mono word_order.not_eq_extremum)

lemma unat_of_nat_id: "n < 4294967296 \<Longrightarrow> unat (word_of_nat n :: id_t) = n"
  by (simp add: unat_of_nat)

lemma card_ids: "card (UNIV :: id_t set) = 4294967296"
  by (simp add: card_word)

lemma distinct_ids_length:
  assumes "distinct (xs :: id_t list)" "set xs \<inter> A = {}" "finite A"
  shows "length xs + card A \<le> 4294967296"
proof -
  have "card (set xs \<union> A) \<le> card (UNIV :: id_t set)"
    by (rule card_mono) auto
  moreover have "card (set xs \<union> A) = card (set xs) + card A"
    using assms by (simp add: card_Un_disjoint)
  moreover have "card (set xs) = length xs"
    using assms by (simp add: distinct_card)
  ultimately show ?thesis by (simp add: card_ids)
qed

lemma has_data_iff:
  "has_data s key \<longleftrightarrow> unat key < length (sparse s) \<and> sparse s ! unat key \<noteq> MAX_ID"
  by (auto simp: has_data_def out_of_bounds_def is_null_key_def)

lemma ss_inv_dense_bound:
  assumes "ss_inv s"
  shows "length (dense s) < 4294967296"
proof -
  have "length (dense s) + card {MAX_ID} \<le> 4294967296"
    using assms by (intro distinct_ids_length) (auto simp: ss_inv_def)
  then show ?thesis by simp
qed

lemma ss_inv_mem_has:
  assumes "ss_inv s" "key \<in> set (dense s)"
  shows "has_data s key"
proof -
  from assms(2) obtain i where i: "i < length (dense s)" "dense s ! i = key"
    by (auto simp: in_set_conv_nth)
  with assms(1) have k: "unat key < length (sparse s)" "unat (sparse s ! unat key) = i"
    by (auto simp: ss_inv_def)
  have "length (dense s) + card {MAX_ID} \<le> 4294967296"
    using assms by (intro distinct_ids_length) (auto simp: ss_inv_def)
  with i(1) have "i < 4294967295" by simp
  with k(2) have "sparse s ! unat key \<noteq> MAX_ID"
    using unat_MAX_ID by auto
  with k(1) show ?thesis by (simp add: has_data_iff)
qed

lemma ss_inv_fresh_index:
  assumes "ss_inv s" "\<not> has_data s key" "key \<noteq> MAX_ID"
  shows "length (dense s) < 4294967295"
proof -
  have "key \<notin> set (dense s)"
    using assms ss_inv_mem_has by blast
  then have "length (dense s) + card {MAX_ID, key} \<le> 4294967296"
    using assms by (intro distinct_ids_length) (auto simp: ss_inv_def)
  with assms(3) show ?thesis by simp
qed

lemma resize_grow: "length v \<le> n \<Longrightarrow> resize v n z = v @ replicate (n - length v) z"
  by (simp add: resize_def)

lemma rezise_exact:
  assumes "key \<noteq> MAX_ID" "unat key = length (sparse s)"
  shows "rezise s key = Some (s\<lparr>sparse := sparse s @ [MAX_ID]\<rparr>)"
proof -
  let ?n = "length (sparse s)"
  have cells: "map (\<lambda>i. if ?n \<le> i \<and> i < Suc ?n then MAX_ID else (sparse s @ [0]) ! i)
                 [0..<Suc ?n] = sparse s @ [MAX_ID]"
    by (rule nth_equalityI) (auto simp: nth_append less_Suc_eq simp del: upt_Suc)
  show ?thesis
    using assms cells
    by (simp add: rezise_def rezise_fill_range_def fill_def resize_grow unat_succ_id
          del: upt_Suc)
qed

lemma rezise_overrun:
  assumes "key \<noteq> MAX_ID" "length (sparse s) < unat key"
  shows "rezise s key = None"
  using assms
  by (auto simp: rezise_def rezise_fill_range_def fill_def resize_grow unat_succ_id Let_def)

lemma ss_inv_grow:
  assumes "ss_inv s"
  shows "ss_inv (s\<lparr>sparse := sparse s @ [MAX_ID]\<rparr>)"
  using assms unfolding ss_inv_def by (auto simp: nth_append)

lemma ss_inv_bind_update:
  assumes "ss_inv s1"
  shows "ss_inv (s1\<lparr>data := (data s1)[j := v]\<rparr>)"
  using assms by (auto simp: ss_inv_def)

lemma ss_inv_bind_new:
  assumes inv1: "ss_inv s1" and nohas: "\<not> has_data s1 key" and nn: "key \<noteq> MAX_ID"
    and inb: "unat key < length (sparse s1)"
  shows "ss_inv (s1\<lparr>sparse := (sparse s1)[unat key := word_of_nat (length (dense s1))],
               dense := dense s1 @ [key], data := data s1 @ [v]\<rparr>)"
proof -
  let ?n = "length (dense s1)"
  have n: "?n < 4294967295"
    using ss_inv_fresh_index [OF inv1 nohas nn] .
  have un: "unat (word_of_nat ?n :: id_t) = ?n"
    using n by (simp add: unat_of_nat_id)
  have nm: "(word_of_nat ?n :: id_t) \<noteq> MAX_ID"
    using un n unat_MAX_ID by auto
  have notin: "key \<notin> set (dense s1)"
    using inv1 nohas ss_inv_mem_has by blast
  have cell: "sparse s1 ! unat key = MAX_ID"
    using nohas inb by (simp add: has_data_iff)
  have A: "unat ((dense s1 @ [key]) ! i) < length (sparse s1) \<and>
         unat ((sparse s1)[unat key := word_of_nat ?n] ! unat ((dense s1 @ [key]) ! i)) = i"
    if "i < Suc ?n" for i
  proof (cases "i = ?n")
    case True
    then show ?thesis using inb un by simp
  next
    case False
    with that have i: "i < ?n" by simp
    then have "dense s1 ! i \<noteq> key" using notin by (metis nth_mem)
    then have "unat (dense s1 ! i) \<noteq> unat key" by (simp add: word_unat_eq_iff)
    then show ?thesis using i inv1 by (simp add: ss_inv_def nth_append)
  qed
  have B: "unat ((sparse s1)[unat key := word_of_nat ?n] ! unat k) < Suc ?n \<and>
         (dense s1 @ [key]) ! unat ((sparse s1)[unat key := word_of_nat ?n] ! unat k) = k"
    if "unat k < length (sparse s1)" "(sparse s1)[unat key := word_of_nat ?n] ! unat k \<noteq> MAX_ID"
    for k :: id_t
  proof (cases "k = key")
    case True
    then show ?thesis using inb un by simp
  next
    case False
    then have ne: "unat k \<noteq> unat key" by (simp add: word_unat_eq_iff)
    with that have "sparse s1 ! unat k \<noteq> MAX_ID" by simp
    with that(1) inv1 have "unat (sparse s1 ! unat k) < ?n"
      "dense s1 ! unat (sparse s1 ! unat k) = k" by (auto simp: ss_inv_def)
    then show ?thesis using ne by (simp add: nth_append)
  qed
  show ?thesis
    unfolding ss_inv_def
    using inv1 notin nn A B by (auto simp: ss_inv_def)
qed

text \<open>
  What \<open>bind\<close> does, case by case: a key beyond the length of the sparse array makes the
  fill of \<open>rezise\<close> leave the array; a key equal to the length adds one cell.
\<close>

lemma bind_cases:
  "bind s key v =
     (if key = MAX_ID then Some (s, Some INVALID_KEY)
      else if length (sparse s) < unat key then None
      else
        let s1 = (if unat key = length (sparse s) then s\<lparr>sparse := sparse s @ [MAX_ID]\<rparr>
                  else s)
        in Some (if has_data s1 key
                 then (s1\<lparr>data := (data s1)[unat (sparse s1 ! unat key) := v]\<rparr>, None)
                 else (s1\<lparr>sparse := (sparse s1)[unat key := word_of_nat (length (dense s1))],
                          dense := dense s1 @ [key], data := data s1 @ [v]\<rparr>, None)))"
proof (cases "key = MAX_ID")
  case True
  then show ?thesis by (simp add: bind_def is_null_key_def)
next
  case False
  consider "length (sparse s) < unat key" | "unat key = length (sparse s)"
    | "unat key < length (sparse s)" by linarith
  then show ?thesis
  proof cases
    case 1
    then show ?thesis
      using False by (simp add: bind_def is_null_key_def out_of_bounds_def rezise_overrun)
  next
    case 2
    then show ?thesis
      using False
      by (simp add: bind_def is_null_key_def out_of_bounds_def rezise_exact Let_def)
  next
    case 3
    then show ?thesis
      using False by (simp add: bind_def is_null_key_def out_of_bounds_def Let_def)
  qed
qed

lemma bind_overrun:
  "key \<noteq> MAX_ID \<Longrightarrow> length (sparse s) < unat key \<Longrightarrow> bind s key v = None"
  by (simp add: bind_cases)

lemma bind_defined:
  "bind s key v \<noteq> None \<longleftrightarrow> key = MAX_ID \<or> unat key \<le> length (sparse s)"
  by (auto simp: bind_cases Let_def)

lemma ss_inv_bind:
  assumes "ss_inv s" "bind s key v = Some (s', res)"
  shows "ss_inv s'"
proof (cases "key = MAX_ID")
  case True
  then show ?thesis using assms by (simp add: bind_cases)
next
  case False
  define s1 where
    "s1 = (if unat key = length (sparse s) then s\<lparr>sparse := sparse s @ [MAX_ID]\<rparr> else s)"
  have le: "unat key \<le> length (sparse s)"
    using assms(2) False by (simp add: bind_cases split: if_splits)
  have inv1: "ss_inv s1"
    using assms(1) by (simp add: s1_def ss_inv_grow)
  have inb: "unat key < length (sparse s1)"
    using le by (auto simp: s1_def)
  show ?thesis
    using False le inv1 inb assms(2) ss_inv_bind_new [of s1 key v] ss_inv_bind_update [of s1]
    by (auto simp: bind_cases s1_def [symmetric] Let_def split: if_splits)
qed

lemma butlast_swap_last:
  "i < length xs \<Longrightarrow> butlast (swap xs i (length xs - Suc 0)) = (butlast xs)[i := last xs]"
  by (cases xs rule: rev_cases)
     (auto simp: swap_def butlast_list_update nth_append list_update_append list_update_beyond)

lemma last_swap_last:
  "i < length xs \<Longrightarrow> last (swap xs i (length xs - Suc 0)) = xs ! i"
  by (cases xs rule: rev_cases) (auto simp: swap_def last_list_update nth_append list_update_append)

lemma unbind_absent: "\<not> has_data s key \<Longrightarrow> unbind s key = (s, None)"
  by (simp add: unbind_def)

lemma ss_inv_has:
  assumes "ss_inv s" "has_data s key"
  shows "unat (sparse s ! unat key) < length (dense s)"
    and "dense s ! unat (sparse s ! unat key) = key"
    and "unat key < length (sparse s)"
    and "unat (sparse s ! unat key) < length (data s)"
  using assms by (auto simp: ss_inv_def has_data_iff)

lemma unbind_present:
  assumes "ss_inv s" "has_data s key"
  shows "unbind s key =
     (\<lparr>sparse = (sparse s)[unat (last (dense s)) := sparse s ! unat key, unat key := MAX_ID],
       dense = (butlast (dense s))[unat (sparse s ! unat key) := last (dense s)],
       data = (butlast (data s))[unat (sparse s ! unat key) := last (data s)]\<rparr>,
      Some (data s ! unat (sparse s ! unat key)))"
  using assms(2) ss_inv_has [OF assms]
  by (simp add: unbind_def Let_def butlast_swap_last last_swap_last)

lemma ss_inv_unbind_present:
  assumes inv: "ss_inv s" and has: "has_data s key"
  shows "ss_inv \<lparr>sparse = (sparse s)[unat (last (dense s)) := sparse s ! unat key, unat key := MAX_ID],
       dense = (butlast (dense s))[unat (sparse s ! unat key) := last (dense s)],
       data = (butlast (data s))[unat (sparse s ! unat key) := last (data s)]\<rparr>"
    (is "ss_inv ?s'")
proof -
  let ?n = "length (dense s)"
  let ?l = "?n - 1"
  let ?b = "last (dense s)"
  let ?p = "sparse s ! unat key"
  let ?i = "unat ?p"
  note h = ss_inv_has [OF inv has]
  have npos: "0 < ?n" using h(1) by (cases "dense s") simp_all
  have b: "?b = dense s ! ?l" using npos by (simp add: last_conv_nth)
  have dist: "distinct (dense s)" using inv by (simp add: ss_inv_def)
  have nth_eq: "dense s ! j = dense s ! k \<longleftrightarrow> j = k" if "j < ?n" "k < ?n" for j k
    using dist that by (simp add: nth_eq_iff_index_eq)
  have D: "dense ?s' ! j = (if j = ?i then ?b else dense s ! j)" if "j < ?l" for j
    using that by (simp add: nth_butlast)
  have len: "length (dense ?s') = ?l" by simp
  have bk: "?b = key \<longleftrightarrow> ?i = ?l"
    using nth_eq [of ?l ?i] h(1,2) npos b by auto
  have S: "sparse ?s' ! unat k =
        (if k = key then MAX_ID else if k = ?b then ?p else sparse s ! unat k)"
    if "unat k < length (sparse s)" for k
    using that by (auto simp: word_unat_eq_iff)
  have inv_d: "unat (dense s ! j) < length (sparse s)" "unat (sparse s ! unat (dense s ! j)) = j"
    if "j < ?n" for j using inv that by (auto simp: ss_inv_def)
  have inv_s: "unat (sparse s ! unat k) < ?n" "dense s ! unat (sparse s ! unat k) = k"
    if "unat k < length (sparse s)" "sparse s ! unat k \<noteq> MAX_ID" for k
    using inv that by (auto simp: ss_inv_def)
  have c1: "length (dense ?s') = length (data ?s')"
    using inv by (simp add: ss_inv_def)
  have c4: "unat (dense ?s' ! j) < length (sparse ?s') \<and>
            unat (sparse ?s' ! unat (dense ?s' ! j)) = j" if j: "j < length (dense ?s')" for j
  proof -
    from j have jl: "j < ?l" by simp
    then have jn: "j < ?n" by simp
    show ?thesis
    proof (cases "j = ?i")
      case True
      then have "?i \<noteq> ?l" using jl by simp
      then have "?b \<noteq> key" using bk by simp
      moreover have "unat ?b < length (sparse s)" using b inv_d(1) [of ?l] npos by simp
      ultimately show ?thesis using True D [OF jl] S [of ?b] by simp
    next
      case False
      have "dense s ! j \<noteq> key" using nth_eq [of j ?i] jn h(1,2) False by auto
      moreover have "dense s ! j \<noteq> ?b" using nth_eq [of j ?l] jn jl npos b by auto
      ultimately show ?thesis using False D [OF jl] S [of "dense s ! j"] inv_d [OF jn] by simp
    qed
  qed
  have c5: "unat (sparse ?s' ! unat k) < length (dense ?s') \<and>
            dense ?s' ! unat (sparse ?s' ! unat k) = k"
    if k: "unat k < length (sparse ?s')" "sparse ?s' ! unat k \<noteq> MAX_ID" for k
  proof -
    from k(1) have kin: "unat k < length (sparse s)" by simp
    from k(2) S [OF kin] have kk: "k \<noteq> key" by auto
    show ?thesis
    proof (cases "k = ?b")
      case True
      then have "?i \<noteq> ?l" using bk kk by simp
      then have "?i < ?l" using h(1) by simp
      then show ?thesis using True kk S [OF kin] D [of ?i] by simp
    next
      case False
      then have sk: "sparse ?s' ! unat k = sparse s ! unat k" using kk S [OF kin] by simp
      with k(2) have ne: "sparse s ! unat k \<noteq> MAX_ID" by simp
      note t = inv_s [OF kin ne]
      have "unat (sparse s ! unat k) \<noteq> ?l" using t(2) False b by auto
      then have lt: "unat (sparse s ! unat k) < ?l" using t(1) by simp
      have "unat (sparse s ! unat k) \<noteq> ?i" using t(2) h(2) kk by auto
      then show ?thesis using sk lt t(2) D [OF lt] by simp
    qed
  qed
  have c3: "MAX_ID \<notin> set (dense ?s')"
  proof
    assume "MAX_ID \<in> set (dense ?s')"
    then obtain j where j0: "j < length (dense ?s')" and j2: "dense ?s' ! j = MAX_ID"
      by (metis in_set_conv_nth)
    from j0 have j1: "j < ?l" by simp
    note j = j1 j2
    have "MAX_ID \<notin> set (dense s)" using inv by (simp add: ss_inv_def)
    then have "dense s ! k \<noteq> MAX_ID" if "k < ?n" for k using that by (metis nth_mem)
    note nm = this
    have jn: "j < ?n" and ln: "?l < ?n" using j1 npos by arith+
    show False
      using nm [OF jn] nm [OF ln] j2 D [OF j1] b by (cases "j = ?i") simp_all
  qed
  have c2: "distinct (dense ?s')"
    unfolding distinct_conv_nth
  proof (intro allI impI)
    fix j k assume jk: "j < length (dense ?s')" "k < length (dense ?s')" "j \<noteq> k"
    have "unat (sparse ?s' ! unat (dense ?s' ! j)) = j" "unat (sparse ?s' ! unat (dense ?s' ! k)) = k"
      using c4 jk by blast+
    with jk(3) show "dense ?s' ! j \<noteq> dense ?s' ! k" by metis
  qed
  show ?thesis
    unfolding ss_inv_def using c1 c2 c3 c4 c5 by blast
qed

lemma ss_inv_unbind:
  assumes "ss_inv s"
  shows "ss_inv (fst (unbind s key))"
  using assms ss_inv_unbind_present [of s key]
  by (cases "has_data s key") (simp_all add: unbind_present unbind_absent)


lemma ss_inv_SparseSet: "ss_inv SparseSet"
  by (simp add: ss_inv_def SparseSet_def)

lemma ss_inv_apply_op:
  assumes "ss_inv s" "apply_op s x = Some s'"
  shows "ss_inv s'"
proof (cases x)
  case (Bind key v)
  with assms(2) obtain res where "bind s key v = Some (s', res)" by auto
  with assms(1) show ?thesis by (rule ss_inv_bind)
next
  case (Unbind key)
  with assms show ?thesis by (auto simp: ss_inv_unbind)
qed

lemma ss_inv_run_ops:
  assumes "ss_inv s" "run_ops s xs = Some ss"
  shows "\<forall>t \<in> set ss. ss_inv t"
  using assms
proof (induction xs arbitrary: s ss)
  case Nil
  then show ?case by simp
next
  case (Cons a xs)
  from Cons.prems(2) obtain s1 ss1 where
    s1: "apply_op s a = Some s1" and ss1: "run_ops s1 xs = Some ss1" and ss: "ss = s1 # ss1"
    by (auto split: option.splits)
  have step: "ss_inv s1" using Cons.prems(1) s1 by (rule ss_inv_apply_op)
  from Cons.IH [OF step ss1] step ss show ?case by simp
qed

text \<open>
  As long as no operation of a sequence writes past the end of a vector, the invariants
  hold after each of its operations.
\<close>

lemma run_ops_keeps_invariants:
  assumes "run_ops SparseSet ops = Some ss"
  shows "\<forall>s \<in> set ss. ss_inv s"
  using ss_inv_SparseSet assms by (rule ss_inv_run_ops)

text \<open>
  C3. After the binds of the keys 0 to 9 on the empty sparse set, the bind of key 15,
  which is not the null id, resizes the sparse array to 16 cells and then fills the
  offsets 10 to 20: five cells past the end of the array. The operation has no defined
  state afterwards, so the invariants do not hold after each operation of this sequence.
\<close>

theorem bind_beyond_length_leaves_sparse_array:
  "list_all (\<lambda>x. op_key x \<noteq> MAX_ID) (ten_binds @ [Bind 15 115]) \<and>
   map_option last (run_ops SparseSet ten_binds) = Some ten_bound \<and>
   length (resize (sparse ten_bound) (unat (15 + 1 :: id_t)) 0) = 16 \<and>
   rezise_writes ten_bound 15 = [10, 11, 12, 13, 14, 15, 16, 17, 18, 19, 20] \<and>
   bind ten_bound 15 115 = None \<and>
   run_ops SparseSet (ten_binds @ [Bind 15 115]) = None"
  by code_simp

lemma swap_nth_last:
  "i < length xs \<Longrightarrow> swap xs i (length xs - Suc 0) ! i = last xs"
  by (cases xs rule: rev_cases) (auto simp: swap_def nth_append nth_list_update)

lemma has_spec_has_data: "has_spec s key \<Longrightarrow> has_data s key"
  by (simp add: has_spec_def has_data_iff)

text \<open>
  C8. On a sparse set that satisfies the invariants, for a key the set has, the
  implemented \<open>unbind\<close> yields the same state and the same value as the reference
  algorithm, which swaps first and updates the sparse cells afterwards.
\<close>

theorem unbind_agrees_with_reference:
  assumes "ss_inv s" "has_spec s key"
  shows "unbind s key = unbind_spec s key"
proof -
  have has: "has_data s key" using assms(2) by (rule has_spec_has_data)
  note h = ss_inv_has [OF assms(1) has]
  have len: "length (data s) = length (dense s)" using assms(1) by (simp add: ss_inv_def)
  have cell: "swap (dense s) (unat (sparse s ! unat key)) (length (dense s) - Suc 0) !
                unat (sparse s ! unat key) = last (dense s)"
    using h(1) by (rule swap_nth_last)
  show ?thesis
    using has assms(2) cell by (simp add: unbind_def unbind_spec_def Let_def len)
qed

theorem unbind_agrees_with_reference_witness:
  "run_ops SparseSet [Bind 0 (10::nat), Bind 1 20, Bind 2 30] =
     Some [\<lparr>sparse = [0], dense = [0], data = [10]\<rparr>,
           \<lparr>sparse = [0, 1], dense = [0, 1], data = [10, 20]\<rparr>,
           \<lparr>sparse = [0, 1, 2], dense = [0, 1, 2], data = [10, 20, 30]\<rparr>] \<and>
   ss_inv \<lparr>sparse = [0, 1, 2], dense = [0, 1, 2], data = [10, 20, 30::nat]\<rparr> \<and>
   has_spec \<lparr>sparse = [0, 1, 2], dense = [0, 1, 2], data = [10, 20, 30::nat]\<rparr> 0 \<and>
   unbind_spec \<lparr>sparse = [0, 1, 2], dense = [0, 1, 2], data = [10, 20, 30::nat]\<rparr> 0 =
     (\<lparr>sparse = [MAX_ID, 1, 0], dense = [2, 1], data = [30, 20]\<rparr>, Some 10) \<and>
   unbind \<lparr>sparse = [0, 1, 2], dense = [0, 1, 2], data = [10, 20, 30::nat]\<rparr> 0 =
     (\<lparr>sparse = [MAX_ID, 1, 0], dense = [2, 1], data = [30, 20]\<rparr>, Some 10) \<and>
   has_spec \<lparr>sparse = [0, 1, 2], dense = [0, 1, 2], data = [10, 20, 30::nat]\<rparr> 2 \<and>
   unbind_spec \<lparr>sparse = [0, 1, 2], dense = [0, 1, 2], data = [10, 20, 30::nat]\<rparr> 2 =
     (\<lparr>sparse = [0, 1, MAX_ID], dense = [0, 1], data = [10, 20]\<rparr>, Some 30) \<and>
   unbind \<lparr>sparse = [0, 1, 2], dense = [0, 1, 2], data = [10, 20, 30::nat]\<rparr> 2 =
     (\<lparr>sparse = [0, 1, MAX_ID], dense = [0, 1], data = [10, 20]\<rparr>, Some 30)"
proof -
  let ?s = "\<lparr>sparse = [0, 1, 2], dense = [0, 1, 2], data = [10, 20, 30::nat]\<rparr>"
  have run: "run_ops SparseSet [Bind 0 (10::nat), Bind 1 20, Bind 2 30] =
     Some [\<lparr>sparse = [0], dense = [0], data = [10]\<rparr>,
           \<lparr>sparse = [0, 1], dense = [0, 1], data = [10, 20]\<rparr>, ?s]"
    by code_simp
  have inv: "ss_inv ?s"
    using run_ops_keeps_invariants [OF run] by simp
  have has0: "has_spec ?s 0" and has2: "has_spec ?s 2"
    by code_simp+
  have ref0: "unbind_spec ?s 0 =
     (\<lparr>sparse = [MAX_ID, 1, 0], dense = [2, 1], data = [30, 20]\<rparr>, Some 10)"
    by code_simp
  have ref2: "unbind_spec ?s 2 =
     (\<lparr>sparse = [0, 1, MAX_ID], dense = [0, 1], data = [10, 20]\<rparr>, Some 30)"
    by code_simp
  from unbind_agrees_with_reference [OF inv has0] ref0
  have "unbind ?s 0 = (\<lparr>sparse = [MAX_ID, 1, 0], dense = [2, 1], data = [30, 20]\<rparr>, Some 10)"
    by simp
  moreover from unbind_agrees_with_reference [OF inv has2] ref2
  have "unbind ?s 2 = (\<lparr>sparse = [0, 1, MAX_ID], dense = [0, 1], data = [10, 20]\<rparr>, Some 30)"
    by simp
  ultimately show ?thesis using run inv has0 has2 ref0 ref2 by blast
qed

lemma bind_at_length:
  assumes "key \<noteq> MAX_ID" "unat key = length (sparse s)"
  shows "bind s key v =
           Some (s\<lparr>sparse := sparse s @ [word_of_nat (length (dense s))],
                   dense := dense s @ [key], data := data s @ [v]\<rparr>, None)"
  using assms by (simp add: bind_cases has_data_iff)

lemma rezise_fill_range_overrun:
  assumes "key \<noteq> MAX_ID" "length (sparse s) < unat key"
  shows "length (resize (sparse s) (unat (key + 1)) 0) < snd (rezise_fill_range s key)"
  using assms by (simp add: resize_grow rezise_fill_range_def unat_succ_id)

text \<open>
  C4. Binding key 1 on the empty sparse set grows the sparse array to length 2, but the
  fill that follows writes the offsets 0, 1 and 2: offset 2 lies outside the grown array.
\<close>

theorem rezise_fill_leaves_the_array:
  "out_of_bounds (SparseSet :: 'v sparse_set) 1 \<and>
   length (resize (sparse (SparseSet :: 'v sparse_set)) (unat (1 + 1 :: id_t)) 0) = 2 \<and>
   rezise_writes (SparseSet :: 'v sparse_set) 1 = [0, 1, 2] \<and>
   rezise (SparseSet :: 'v sparse_set) 1 = None \<and>
   bind (SparseSet :: 'v sparse_set) 1 v = None"
  by (simp add: out_of_bounds_def SparseSet_def rezise_def rezise_writes_def
        rezise_fill_range_def resize_def fill_def bind_def is_null_key_def MAX_ID_def
        upt_rec)

subsection \<open>Indices stay in range\<close>

text \<open>
  The source indexes its vectors without a check in \<open>get_data\<close>, \<open>unbind\<close> and
  \<open>recycle_entity\<close>. Under the invariants every such index is in range, so the model
  never reads a cell that the vector does not have.
\<close>

lemma unbind_indices_in_range:
  assumes "ss_inv s" "has_data s key"
  shows "dense s \<noteq> []" and "data s \<noteq> []"
    and "unat (last (dense s)) < length (sparse s)"
    and "unat (sparse s ! unat key) < length (dense s)"
    and "unat (sparse s ! unat key) < length (data s)"
proof -
  note h = ss_inv_has [OF assms]
  show d: "dense s \<noteq> []" using h(1) by auto
  show "data s \<noteq> []" using h(4) by auto
  have "last (dense s) \<in> set (dense s)" using d by simp
  then have "has_data s (last (dense s))" using assms(1) ss_inv_mem_has by blast
  then show "unat (last (dense s)) < length (sparse s)" by (simp add: has_data_iff)
  show "unat (sparse s ! unat key) < length (dense s)" by (rule h(1))
  show "unat (sparse s ! unat key) < length (data s)" by (rule h(4))
qed

section \<open>Properties of the registry\<close>

subsection \<open>What each operation does to the fields of the registry\<close>

lemma make_new_entity_fields [simp]:
  "fst (make_new_entity r) = word_of_nat (length (entities r))"
  "entities (snd (make_new_entity r)) = entities r @ [word_of_nat (length (entities r))]"
  "current (snd (make_new_entity r)) = current r"
  "component_managers (snd (make_new_entity r)) = component_managers r"
  by (simp_all add: make_new_entity_def Let_def)

lemma recycle_entity_fields [simp]:
  "fst (recycle_entity r) = current r"
  "entities (snd (recycle_entity r)) = (entities r)[unat (current r) := current r]"
  "current (snd (recycle_entity r)) = entities r ! unat (current r)"
  "component_managers (snd (recycle_entity r)) = component_managers r"
  by (simp_all add: recycle_entity_def Let_def)

lemma mark_as_death_fields [simp]:
  "entities (mark_as_death r e) = (entities r)[unat e := current r]"
  "current (mark_as_death r e) = e"
  "component_managers (mark_as_death r e) = component_managers r"
  by (simp_all add: mark_as_death_def)

lemma delete_all_components_fields [simp]:
  "entities (delete_all_components r e) = entities r"
  "current (delete_all_components r e) = current r"
  "component_managers (delete_all_components r e) T =
     map_option (\<lambda>s. fst (unbind s e)) (component_managers r T)"
  by (simp_all add: delete_all_components_def delete_component_def)

lemma kill_entity_dead [simp]: "\<not> is_alive r e \<Longrightarrow> kill_entity r e = r"
  by (simp add: kill_entity_def)

lemma kill_entity_fields:
  assumes "is_alive r e"
  shows "entities (kill_entity r e) = (entities r)[unat e := current r]"
    and "current (kill_entity r e) = e"
    and "component_managers (kill_entity r e) T =
           map_option (\<lambda>s. fst (unbind s e)) (component_managers r T)"
  using assms by (simp_all add: kill_entity_def)

lemma registry_bind_dead:
  "\<not> is_alive r e \<Longrightarrow> registry_bind r T e v = Some (r, Some DEAD_ENTITY)"
  by (simp add: registry_bind_def)

text \<open>The store a bind works on: the one of the type, or a new empty one.\<close>

lemma registry_bind_alive:
  assumes "is_alive r e"
  shows "registry_bind r T e v =
     (case bind (case component_managers r T of Some m \<Rightarrow> m | None \<Rightarrow> SparseSet) e v of
        None \<Rightarrow> None
      | Some (m1, res) \<Rightarrow>
          Some (r\<lparr>component_managers := (component_managers r)(T \<mapsto> m1)\<rparr>, res))"
  using assms
  by (simp add: registry_bind_def make_component_manager_def get_component_manager_def
        Let_def split: option.splits prod.splits)

lemma registry_bind_fields:
  assumes "registry_bind r T e v = Some (r1, res)"
  shows "entities r1 = entities r" and "current r1 = current r"
  using assms
  by (cases "is_alive r e";
      auto simp: registry_bind_dead registry_bind_alive split: option.splits)+

lemma registry_bind_managers:
  assumes "is_alive r e" "registry_bind r T e v = Some (r1, res)"
  shows "\<exists>m1. bind (case component_managers r T of Some m \<Rightarrow> m | None \<Rightarrow> SparseSet) e v =
                 Some (m1, res) \<and>
              component_managers r1 = (component_managers r)(T \<mapsto> m1)"
  using assms by (auto simp: registry_bind_alive split: option.splits)

lemma registry_unbind_fields [simp]:
  "entities (fst (registry_unbind r T e)) = entities r"
  "current (fst (registry_unbind r T e)) = current r"
  by (simp_all add: registry_unbind_def get_component_manager_def Let_def
        split: option.splits prod.splits)

lemma registry_unbind_managers:
  "component_managers (fst (registry_unbind r T e)) =
     (case component_managers r T of
        None \<Rightarrow> component_managers r
      | Some m \<Rightarrow> (component_managers r)(T \<mapsto> fst (unbind m e)))"
  by (simp add: registry_unbind_def get_component_manager_def Let_def
        split: option.splits prod.splits)

lemma has_component_iff:
  "has_component r T e \<longleftrightarrow> (\<exists>s. component_managers r T = Some s \<and> has_data s e)"
  by (simp add: has_component_def get_component_manager_def split: option.splits)

subsection \<open>What bind and unbind do to membership\<close>

lemma has_data_grow:
  "has_data (s\<lparr>sparse := sparse s @ [MAX_ID]\<rparr>) e \<longleftrightarrow> has_data s e"
  by (auto simp: has_data_iff nth_append less_Suc_eq)

lemma has_data_bind_imp:
  assumes "bind s key v = Some (s', res)" "has_data s' e"
  shows "has_data s e \<or> e = key"
proof (cases "e = key \<or> key = MAX_ID")
  case True
  then show ?thesis using assms by (auto simp: bind_cases)
next
  case False
  then have ne: "unat e \<noteq> unat key" by (simp add: word_unat_eq_iff)
  define s1 where
    "s1 = (if unat key = length (sparse s) then s\<lparr>sparse := sparse s @ [MAX_ID]\<rparr> else s)"
  have "has_data s1 e"
    using assms False ne
    by (auto simp: bind_cases s1_def [symmetric] Let_def has_data_iff split: if_splits)
  then show ?thesis
    by (auto simp: s1_def has_data_grow split: if_splits)
qed

lemma not_has_data_unbind: "\<not> has_data (fst (unbind s key)) key"
  by (auto simp: unbind_def Let_def has_data_iff)

lemma has_data_unbind_iff:
  assumes "ss_inv s"
  shows "has_data (fst (unbind s key)) e \<longleftrightarrow> has_data s e \<and> e \<noteq> key"
proof (cases "has_data s key")
  case False
  then show ?thesis by (auto simp: unbind_absent)
next
  case True
  note h = ss_inv_has [OF assms True]
  have ne: "dense s \<noteq> []" using h(1) by auto
  then have "last (dense s) \<in> set (dense s)" by simp
  then have hb: "has_data s (last (dense s))" using assms ss_inv_mem_has by blast
  show ?thesis
  proof (cases "e = key")
    case True
    then show ?thesis using not_has_data_unbind by blast
  next
    case False
    then have ne: "unat e \<noteq> unat key" by (simp add: word_unat_eq_iff)
    show ?thesis
    proof (cases "e = last (dense s)")
      case True
      then show ?thesis
        using hb \<open>has_data s key\<close> False ne
        by (simp add: unbind_present [OF assms \<open>has_data s key\<close>] has_data_iff)
    next
      case nb: False
      then have "unat e \<noteq> unat (last (dense s))" by (simp add: word_unat_eq_iff)
      then show ?thesis
        using False ne
        by (simp add: unbind_present [OF assms \<open>has_data s key\<close>] has_data_iff)
    qed
  qed
qed

lemma ss_inv_no_null: "ss_inv s \<Longrightarrow> \<not> has_data s MAX_ID"
  by (metis ss_inv_def ss_inv_has(1,2) nth_mem)

subsection \<open>Liveness under the operations\<close>

lemma is_alive_make_new_entity:
  "is_alive r e \<Longrightarrow> is_alive (snd (make_new_entity r)) e"
  by (simp add: is_alive_def nth_append)

lemma is_alive_recycle_entity:
  "is_alive r e \<Longrightarrow> is_alive (snd (recycle_entity r)) e"
  by (cases "e = current r") (auto simp: is_alive_def word_unat_eq_iff)

lemma is_alive_make_entity:
  "is_alive r e \<Longrightarrow> is_alive (snd (make_entity r)) e"
  by (simp add: make_entity_def is_alive_make_new_entity is_alive_recycle_entity)

lemma is_alive_kill_other:
  assumes "is_alive r e" "e \<noteq> k"
  shows "is_alive (kill_entity r k) e"
proof (cases "is_alive r k")
  case False
  then show ?thesis using assms by simp
next
  case True
  from assms(2) have "unat e \<noteq> unat k" by (simp add: word_unat_eq_iff)
  then show ?thesis
    using assms(1) by (simp add: is_alive_def kill_entity_fields [OF True])
qed

subsection \<open>The stores of every reachable registry\<close>

lemma stores_inv_Registry: "stores_inv Registry"
  by (simp add: stores_inv_def Registry_def)

lemma stores_inv_make_entity:
  assumes "stores_inv r"
  shows "stores_inv (snd (make_entity r))"
  using assms is_alive_make_entity [of r]
  by (auto simp: stores_inv_def make_entity_def)

lemma stores_inv_kill_entity:
  assumes "stores_inv r"
  shows "stores_inv (kill_entity r k)"
proof (cases "is_alive r k")
  case False
  then show ?thesis using assms by simp
next
  case True
  show ?thesis
    unfolding stores_inv_def
  proof (intro conjI allI impI)
    fix T s assume "component_managers (kill_entity r k) T = Some s"
    then obtain s0 where s0: "component_managers r T = Some s0" "s = fst (unbind s0 k)"
      by (auto simp: kill_entity_fields [OF True])
    then show "ss_inv s" using assms by (auto simp: stores_inv_def ss_inv_unbind)
  next
    fix T s e assume "component_managers (kill_entity r k) T = Some s \<and> has_data s e"
    then obtain s0 where s0: "component_managers r T = Some s0" "s = fst (unbind s0 k)"
      and has: "has_data s e"
      by (auto simp: kill_entity_fields [OF True])
    have "ss_inv s0" using assms s0(1) by (auto simp: stores_inv_def)
    with has s0(2) have "has_data s0 e" "e \<noteq> k" by (simp_all add: has_data_unbind_iff)
    with assms s0(1) have "is_alive r e" by (auto simp: stores_inv_def)
    with \<open>e \<noteq> k\<close> show "is_alive (kill_entity r k) e" by (simp add: is_alive_kill_other)
  qed
qed

lemma is_alive_cong:
  "entities r' = entities r \<Longrightarrow> is_alive r' e = is_alive r e"
  by (simp add: is_alive_def)

lemma stores_inv_registry_bind:
  assumes "stores_inv r" "registry_bind r T e v = Some (r1, res)"
  shows "stores_inv r1"
proof (cases "is_alive r e")
  case False
  then show ?thesis using assms by (simp add: registry_bind_dead)
next
  case True
  define m where "m = (case component_managers r T of Some m \<Rightarrow> m | None \<Rightarrow> SparseSet)"
  have m_inv: "ss_inv m"
    using assms(1) by (auto simp: m_def stores_inv_def ss_inv_SparseSet split: option.splits)
  have m_has: "has_data m x \<Longrightarrow> is_alive r x" for x
    using assms(1)
    by (auto simp: m_def stores_inv_def has_data_iff SparseSet_def split: option.splits)
  have al: "is_alive r1 x = is_alive r x" for x
    by (rule is_alive_cong) (rule registry_bind_fields [OF assms(2)])
  from registry_bind_managers [OF True assms(2)] obtain m1 where
    b: "bind m e v = Some (m1, res)" and
    cm: "component_managers r1 = (component_managers r)(T \<mapsto> m1)"
    by (auto simp: m_def)
  have m1_inv: "ss_inv m1" using m_inv b by (rule ss_inv_bind)
  have m1_has: "has_data m1 x \<Longrightarrow> is_alive r x" for x
    using has_data_bind_imp [OF b] m_has True by blast
  show ?thesis
    unfolding stores_inv_def al cm
    using assms(1) m1_inv m1_has by (auto simp: stores_inv_def)
qed

lemma stores_inv_registry_unbind:
  assumes "stores_inv r"
  shows "stores_inv (fst (registry_unbind r T e))"
proof -
  have al: "is_alive (fst (registry_unbind r T e)) x = is_alive r x" for x
    by (rule is_alive_cong) simp
  show ?thesis
    unfolding stores_inv_def al registry_unbind_managers
    using assms
    by (auto simp: stores_inv_def ss_inv_unbind has_data_unbind_iff split: option.splits)
qed

lemma reachable_stores_inv: "reachable r \<Longrightarrow> stores_inv r"
  by (induction rule: reachable.induct)
     (auto simp: stores_inv_Registry stores_inv_make_entity stores_inv_kill_entity
        stores_inv_registry_unbind intro: stores_inv_registry_bind)

subsection \<open>The free list of every reachable registry\<close>

lemma dead_cong: "entities r' = entities r \<Longrightarrow> dead r' e = dead r e"
  by (simp add: dead_def)

lemma link_cong: "entities r' = entities r \<Longrightarrow> link r' e = link r e"
  by (simp add: link_def)

lemma free_list_inv_cong:
  assumes "entities r' = entities r" "current r' = current r"
  shows "free_list_inv r' = free_list_inv r"
  unfolding free_list_inv_def
  by (simp add: dead_cong [OF assms(1)] link_cong [OF assms(1)] assms(2))

lemma dead_not_alive: "dead r e \<Longrightarrow> \<not> is_alive r e"
  by (simp add: dead_def is_alive_def)

lemma free_list_inv_Registry: "free_list_inv Registry"
  by (simp add: free_list_inv_def Registry_def dead_def)

lemma dead_make_new_entity: "dead (snd (make_new_entity r)) e = dead r e"
proof (cases "unat e < length (entities r)")
  case True
  then show ?thesis by (simp add: dead_def nth_append)
next
  case False
  have "word_of_nat (length (entities r)) = e" if "unat e = length (entities r)"
    using that [symmetric] by simp
  with False show ?thesis by (auto simp: dead_def nth_append less_Suc_eq)
qed

lemma link_make_new_entity: "dead r e \<Longrightarrow> link (snd (make_new_entity r)) e = link r e"
  by (simp add: dead_def link_def nth_append)

lemma free_list_inv_make_new_entity:
  assumes "free_list_inv r"
  shows "free_list_inv (snd (make_new_entity r))"
  using assms unfolding free_list_inv_def dead_make_new_entity
  by (auto simp: link_make_new_entity)

lemma dead_recycle_entity:
  "dead (snd (recycle_entity r)) e \<longleftrightarrow> dead r e \<and> e \<noteq> current r"
  by (cases "e = current r") (auto simp: dead_def word_unat_eq_iff)

lemma link_recycle_entity:
  "e \<noteq> current r \<Longrightarrow> link (snd (recycle_entity r)) e = link r e"
  by (simp add: link_def word_unat_eq_iff)

lemma free_list_inv_recycle_entity:
  assumes inv: "free_list_inv r" and c: "current r \<noteq> MAX_ID"
  shows "free_list_inv (snd (recycle_entity r))"
proof -
  let ?c = "current r"
  let ?r' = "snd (recycle_entity r)"
  from inv c have dc: "dead r ?c" by (simp add: free_list_inv_def)
  have L2: "link r e = MAX_ID \<or> dead r (link r e)" if "dead r e" for e
    using inv that by (simp add: free_list_inv_def)
  have L4: "link r e \<noteq> ?c" if "dead r e" for e
    using inv c that by (auto simp: free_list_inv_def)
  have L5: "link r e = MAX_ID" if "dead r e" "dead r e'" "e \<noteq> e'" "link r e = link r e'" for e e'
    using inv that unfolding free_list_inv_def by blast
  have cur: "current ?r' = link r ?c" by (simp add: link_def)
  have lc: "link r ?c \<noteq> ?c" using dc by (simp add: dead_def link_def)
  show ?thesis
    unfolding free_list_inv_def dead_recycle_entity cur
  proof (intro conjI allI impI)
    show "link r ?c = MAX_ID \<or> dead r (link r ?c) \<and> link r ?c \<noteq> ?c"
      using L2 [OF dc] lc by blast
  next
    fix e assume e: "dead r e \<and> e \<noteq> ?c"
    then have le: "link ?r' e = link r e" by (simp add: link_recycle_entity)
    show "link ?r' e = MAX_ID \<or> dead r (link ?r' e) \<and> link ?r' e \<noteq> ?c"
      unfolding le using L2 [of e] L4 [of e] e by blast
    show "link r ?c = MAX_ID \<or> link ?r' e \<noteq> link r ?c"
      unfolding le using L5 [of e ?c] e dc by metis
  next
    fix e e'
    assume a: "(dead r e \<and> e \<noteq> ?c) \<and> (dead r e' \<and> e' \<noteq> ?c) \<and> e \<noteq> e' \<and> link ?r' e = link ?r' e'"
    then have n: "e \<noteq> ?c" "e' \<noteq> ?c" by simp_all
    have "link ?r' e = link r e" "link ?r' e' = link r e'"
      by (simp_all only: link_recycle_entity [OF n(1)] link_recycle_entity [OF n(2)])
    with a show "link ?r' e = MAX_ID" using L5 [of e e'] by metis
  qed
qed

lemma free_list_inv_make_entity:
  "free_list_inv r \<Longrightarrow> free_list_inv (snd (make_entity r))"
  by (simp add: make_entity_def free_list_inv_make_new_entity free_list_inv_recycle_entity)

lemma dead_mark_as_death:
  assumes "is_alive r k"
  shows "dead (mark_as_death r k) e \<longleftrightarrow> (if e = k then current r \<noteq> k else dead r e)"
  using assms by (cases "e = k") (auto simp: dead_def is_alive_def word_unat_eq_iff)

lemma link_mark_as_death:
  assumes "is_alive r k"
  shows "link (mark_as_death r k) e = (if e = k then current r else link r e)"
  using assms by (cases "e = k") (auto simp: link_def is_alive_def word_unat_eq_iff)

lemma free_list_inv_mark_as_death:
  assumes inv: "free_list_inv r" and al: "is_alive r k"
  shows "free_list_inv (mark_as_death r k)"
proof -
  let ?c = "current r"
  have L6: "?c = MAX_ID \<or> dead r ?c" using inv by (simp add: free_list_inv_def)
  have L2: "link r e = MAX_ID \<or> dead r (link r e)" if "dead r e" for e
    using inv that by (simp add: free_list_inv_def)
  have L4: "?c = MAX_ID \<or> link r e \<noteq> ?c" if "dead r e" for e
    using inv that by (auto simp: free_list_inv_def)
  have L5: "link r e = MAX_ID" if "dead r e" "dead r e'" "e \<noteq> e'" "link r e = link r e'" for e e'
    using inv that unfolding free_list_inv_def by blast
  have nk: "\<not> dead r k" using al dead_not_alive by blast
  have ck: "?c = k \<Longrightarrow> k = MAX_ID" using L6 nk by auto
  show ?thesis
    unfolding free_list_inv_def dead_mark_as_death [OF al] link_mark_as_death [OF al]
      mark_as_death_fields
  proof (intro conjI allI impI)
    show "k = MAX_ID \<or> (if k = k then ?c \<noteq> k else dead r k)"
      using ck by auto
  next
    fix e assume e: "if e = k then ?c \<noteq> k else dead r e"
    show "(if e = k then ?c else link r e) = MAX_ID \<or>
          (if (if e = k then ?c else link r e) = k then ?c \<noteq> k
           else dead r (if e = k then ?c else link r e))"
      using e L6 L2 [of e] nk by (auto split: if_splits)
    show "k = MAX_ID \<or> (if e = k then ?c else link r e) \<noteq> k"
      using e L2 [of e] nk by (auto split: if_splits)
  next
    fix e e'
    assume a: "(if e = k then ?c \<noteq> k else dead r e) \<and>
               (if e' = k then ?c \<noteq> k else dead r e') \<and> e \<noteq> e' \<and>
               (if e = k then ?c else link r e) = (if e' = k then ?c else link r e')"
    show "(if e = k then ?c else link r e) = MAX_ID"
      using a L4 [of e] L4 [of e'] L5 [of e e'] by (auto split: if_splits)
  qed
qed

lemma free_list_inv_kill_entity:
  assumes "free_list_inv r"
  shows "free_list_inv (kill_entity r k)"
proof (cases "is_alive r k")
  case False
  then show ?thesis using assms by simp
next
  case True
  have "free_list_inv (kill_entity r k) = free_list_inv (mark_as_death r k)"
    by (rule free_list_inv_cong) (simp_all add: kill_entity_fields [OF True])
  then show ?thesis using assms True by (simp add: free_list_inv_mark_as_death)
qed

lemma reachable_free_list_inv: "reachable r \<Longrightarrow> free_list_inv r"
proof (induction rule: reachable.induct)
  case reachable_init
  show ?case by (rule free_list_inv_Registry)
next
  case (reachable_make r)
  then show ?case by (simp add: free_list_inv_make_entity)
next
  case (reachable_kill r entity)
  then show ?case by (simp add: free_list_inv_kill_entity)
next
  case (reachable_bind r T entity v r1 res)
  have "free_list_inv r1 = free_list_inv r"
    by (rule free_list_inv_cong) (rule registry_bind_fields [OF reachable_bind.hyps(2)])+
  with reachable_bind show ?case by simp
next
  case (reachable_unbind r T entity)
  have "free_list_inv (fst (registry_unbind r T entity)) = free_list_inv r"
    by (rule free_list_inv_cong) simp_all
  with reachable_unbind show ?case by simp
qed

lemma recycle_index_in_range:
  assumes "reachable r" "current r \<noteq> MAX_ID"
  shows "unat (current r) < length (entities r)"
  using reachable_free_list_inv [OF assms(1)] assms(2)
  by (auto simp: free_list_inv_def dead_def)

subsection \<open>Runs of make\_entity\<close>

lemma reachable_make_entities: "reachable r \<Longrightarrow> reachable (snd (make_entities n r))"
proof (induction n arbitrary: r)
  case 0
  then show ?case by simp
next
  case (Suc n)
  have "reachable (snd (make_entity r))" using Suc.prems by (rule reachable_make)
  from Suc.IH [OF this] show ?case by (simp add: split_beta Let_def)
qed

lemma make_entities_fresh:
  assumes "current r = MAX_ID"
  shows "make_entities n r =
           (map word_of_nat [length (entities r)..<length (entities r) + n],
            r\<lparr>entities := entities r @
                 map word_of_nat [length (entities r)..<length (entities r) + n]\<rparr>)"
  using assms
proof (induction n arbitrary: r)
  case 0
  then show ?case by simp
next
  case (Suc n)
  let ?len = "length (entities r)"
  let ?r1 = "r\<lparr>entities := entities r @ [word_of_nat ?len]\<rparr>"
  have m: "make_entity r = (word_of_nat ?len, ?r1)"
    using Suc.prems by (simp add: make_entity_def make_new_entity_def Let_def)
  have u: "[?len..<?len + Suc n] = ?len # [Suc ?len..<Suc ?len + n]"
    by (subst upt_conv_Cons) simp_all
  have ih: "make_entities n ?r1 =
              (map word_of_nat [Suc ?len..<Suc ?len + n],
               r\<lparr>entities := entities r @ word_of_nat ?len #
                    map word_of_nat [Suc ?len..<Suc ?len + n]\<rparr>)"
    using Suc.IH [of ?r1] Suc.prems by simp
  show ?case
    by (simp only: make_entities.simps m Let_def prod.case ih u list.map)
qed

lemma make_entities_Registry:
  "snd (make_entities n Registry) =
     \<lparr>current = MAX_ID, entities = map word_of_nat [0..<n], component_managers = Map.empty\<rparr>"
  by (simp add: make_entities_fresh Registry_def)

lemma is_alive_exhausted:
  assumes "unat MAX_ID < n"
  shows "is_alive (snd (make_entities n Registry)) MAX_ID"
  using assms by (simp add: make_entities_Registry is_alive_def unat_MAX_ID MAX_ID_def)

subsection \<open>Sequences of public calls\<close>

lemma calls_append:
  "calls r (xs @ ys) = (case calls r xs of None \<Rightarrow> None | Some r1 \<Rightarrow> calls r1 ys)"
  by (induction xs arbitrary: r) (auto split: option.splits)

lemma calls_make_entities:
  "calls r (replicate n MakeEntity) = Some (snd (make_entities n r))"
  by (induction n arbitrary: r) (simp_all add: split_beta Let_def)

lemma call_reachable:
  assumes "reachable r" "call r c = Some r1"
  shows "reachable r1"
proof (cases c)
  case MakeEntity
  with assms show ?thesis by (auto intro: reachable_make)
next
  case (KillEntity e)
  with assms show ?thesis by (auto intro: reachable_kill)
next
  case (BindComponent T e v)
  with assms(2) obtain res where "registry_bind r T e v = Some (r1, res)" by auto
  with assms(1) show ?thesis by (rule reachable_bind)
next
  case (UnbindComponent T e)
  with assms show ?thesis by (auto intro: reachable_unbind)
qed

lemma calls_reachable:
  assumes "reachable r" "calls r cs = Some r1"
  shows "reachable r1"
  using assms
proof (induction cs arbitrary: r)
  case Nil
  then show ?case by simp
next
  case (Cons c cs)
  from Cons.prems(2) obtain r2 where c: "call r c = Some r2" and cs: "calls r2 cs = Some r1"
    by (auto split: option.splits)
  have "reachable r2" using Cons.prems(1) c by (rule call_reachable)
  then show ?case using cs by (rule Cons.IH)
qed

text \<open>The first bind of a component, to entity 0, in a registry without stores.\<close>

lemma first_bind:
  assumes "0 < n"
  shows "registry_bind (snd (make_entities n Registry)) T 0 v =
           Some ((snd (make_entities n Registry))
                   \<lparr>component_managers := [T \<mapsto> \<lparr>sparse = [0], dense = [0], data = [v]\<rparr>]\<rparr>,
                 None)"
proof -
  have nth0: "(map word_of_nat [0..<n] :: id_t list) ! 0 = 0"
    using assms by (simp only: nth_map length_upt nth_upt diff_zero add_0) simp
  have al: "is_alive (snd (make_entities n Registry)) 0"
    using assms nth0 by (simp add: make_entities_Registry is_alive_def)
  have b: "bind SparseSet 0 v = Some (\<lparr>sparse = [0], dense = [0], data = [v]\<rparr>, None)"
    by (simp add: bind_at_length MAX_ID_def SparseSet_def)
  have cm: "component_managers (snd (make_entities n Registry)) = Map.empty"
    by (simp add: make_entities_Registry)
  show ?thesis
    unfolding registry_bind_alive [OF al] cm by (simp add: b)
qed

lemma query_scenario_run: "calls Registry query_scenario_calls = Some query_scenario"
proof -
  let ?r2 = "\<lparr>current = MAX_ID, entities = [0, 1 :: id_t],
              component_managers = (Map.empty :: string \<rightharpoonup> nat sparse_set)\<rparr>"
  have al: "is_alive (r\<lparr>component_managers := m\<rparr>) e = is_alive r e" for r :: "nat registry" and m e
    by (simp add: is_alive_def)
  have a0: "is_alive ?r2 0" and a1: "is_alive ?r2 1" by (simp_all add: is_alive_def)
  have b1: "bind SparseSet 0 (x::nat) = Some (\<lparr>sparse = [0], dense = [0], data = [x]\<rparr>, None)" for x
    by (simp add: bind_at_length MAX_ID_def SparseSet_def)
  have b2: "bind \<lparr>sparse = [0], dense = [0], data = [x]\<rparr> 1 (y::nat) =
      Some (\<lparr>sparse = [0, 1], dense = [0, 1], data = [x, y]\<rparr>, None)" for x y
    by (simp add: bind_at_length MAX_ID_def)
  have m: "snd (make_entity (snd (make_entity (Registry :: nat registry)))) = ?r2"
    by (simp add: make_entity_def make_new_entity_def Registry_def Let_def)
  show ?thesis
    unfolding query_scenario_calls_def query_scenario_def
    by (simp add: m registry_bind_def get_component_manager_def make_component_manager_def
          is_alive_def b1 b2 Let_def fun_upd_twist)
qed

lemma reachable_query_scenario: "reachable query_scenario"
  using reachable_init query_scenario_run by (rule calls_reachable)

lemma reachable_recycling_scenario: "reachable recycling_scenario"
  unfolding recycling_scenario_def
  by (intro reachable_kill reachable_make_entities reachable_init)

lemma reachable_exhausted_registry: "reachable exhausted_registry"
  unfolding exhausted_registry_def
  by (intro reachable_make_entities reachable_init)

lemma wrapped_registry_run:
  "registry_bind (snd (make_entities 4294967297 Registry)) ''Vec2'' 0 20 =
     Some (wrapped_registry, None)"
  unfolding wrapped_registry_def by (rule first_bind) simp

lemma reachable_wrapped_registry: "reachable wrapped_registry"
  using reachable_make_entities [OF reachable_init] wrapped_registry_run
  by (rule reachable_bind)

lemma forty_entities_run: "calls Registry forty_entities_calls = Some forty_entities"
proof -
  have "registry_bind (snd (make_entities 40 Registry)) ''Vec2'' 0 20 =
          Some (forty_entities, None)"
    unfolding forty_entities_def by (rule first_bind) simp
  then show ?thesis
    unfolding forty_entities_calls_def
    by (simp only: calls_append calls_make_entities option.case calls.simps call.simps
          option.map prod.sel)
qed

lemma reachable_has_component_alive:
  assumes "reachable r" "has_component r T e"
  shows "is_alive r e"
  using reachable_stores_inv [OF assms(1)] assms(2)
  by (auto simp: stores_inv_def has_component_iff)

lemma reachable_null_unbound:
  assumes "reachable r"
  shows "\<not> has_component r T MAX_ID"
  using reachable_stores_inv [OF assms] ss_inv_no_null
  by (auto simp: stores_inv_def has_component_iff)

lemma reachable_link_unbound:
  assumes "reachable r" "dead r e"
  shows "\<not> has_component r T (link r e)"
proof -
  from reachable_free_list_inv [OF assms(1)] assms(2)
  have "link r e = MAX_ID \<or> dead r (link r e)"
    by (simp add: free_list_inv_def)
  then show ?thesis
    using reachable_null_unbound [OF assms(1)] reachable_has_component_alive [OF assms(1)]
      dead_not_alive by metis
qed

text \<open>
  C10. Forty calls of \<open>make_entity\<close> and the bind of a \<^verbatim>\<open>Vec2\<close> to entity 0 lead to a
  state in which entity 30 is alive. Binding a \<^verbatim>\<open>Vec2\<close> to entity 30 there resizes the
  sparse array of the store from 1 to 31 cells and then fills the offsets 1 to 59: 29
  cells past the end of the array, into whatever lies behind it. The call has no
  defined state afterwards, and nothing holds of the registry from there on.
\<close>

theorem registry_bind_beyond_length_leaves_sparse_array:
  "calls Registry forty_entities_calls = Some forty_entities \<and>
   is_alive forty_entities 0 \<and> has_component forty_entities ''Vec2'' 0 \<and>
   is_alive forty_entities 30 \<and>
   component_managers forty_entities ''Vec2'' =
     Some \<lparr>sparse = [0], dense = [0], data = [20]\<rparr> \<and>
   length (resize [0 :: id_t] (unat (30 + 1 :: id_t)) 0) = 31 \<and>
   rezise_fill_range \<lparr>sparse = [0], dense = [0], data = [20 :: nat]\<rparr> 30 = (1, 60) \<and>
   registry_bind forty_entities ''Vec2'' 30 21 = None \<and>
   calls Registry (forty_entities_calls @ [BindComponent ''Vec2'' 30 21]) = None"
proof -
  have al0: "is_alive forty_entities 0" and al30: "is_alive forty_entities 30"
    by code_simp+
  have has: "has_component forty_entities ''Vec2'' 0" by code_simp
  have cm: "component_managers forty_entities ''Vec2'' =
      Some \<lparr>sparse = [0], dense = [0], data = [20]\<rparr>"
    by (simp add: forty_entities_def)
  have len: "length (resize [0 :: id_t] (unat (30 + 1 :: id_t)) 0) = 31"
    by (simp add: resize_def)
  have range: "rezise_fill_range \<lparr>sparse = [0], dense = [0], data = [20 :: nat]\<rparr> 30 = (1, 60)"
    by (simp add: rezise_fill_range_def)
  have over: "bind \<lparr>sparse = [0], dense = [0], data = [20 :: nat]\<rparr> 30 21 = None"
    by (rule bind_overrun) (simp_all add: MAX_ID_def)
  have none: "registry_bind forty_entities ''Vec2'' 30 21 = None"
    by (simp add: registry_bind_alive [OF al30] cm over)
  have "calls Registry (forty_entities_calls @ [BindComponent ''Vec2'' 30 21]) = None"
    by (simp add: calls_append forty_entities_run none)
  with forty_entities_run al0 has al30 cm len range none show ?thesis by blast
qed

lemma exhausted_registry_eq:
  "exhausted_registry =
     \<lparr>current = MAX_ID, entities = map word_of_nat [0..<4294967296],
      component_managers = Map.empty\<rparr>"
  unfolding exhausted_registry_def by (rule make_entities_Registry)

lemma is_alive_exhausted_registry: "is_alive exhausted_registry MAX_ID"
  unfolding exhausted_registry_def by (rule is_alive_exhausted) (simp add: unat_MAX_ID)

lemma current_exhausted_registry: "current exhausted_registry = MAX_ID"
  by (simp add: exhausted_registry_def make_entities_Registry)

lemma managers_exhausted_registry: "component_managers exhausted_registry T = None"
  by (simp add: exhausted_registry_def make_entities_Registry)

lemma is_alive_kill_null_head:
  assumes "current r = MAX_ID" "is_alive r MAX_ID"
  shows "is_alive (kill_entity r MAX_ID) MAX_ID"
  using assms by (simp add: kill_entity_fields [OF assms(2)] is_alive_def)

text \<open>
  In a reachable registry, killing an entity that is not alive changes nothing, and
  killing an entity that is alive and is not the null id leaves it not alive, with no
  store having it afterwards.
\<close>

lemma kill_entity_marks_dead_and_purges:
  assumes "reachable r"
  shows "(\<not> is_alive r e \<longrightarrow> kill_entity r e = r) \<and>
         (is_alive r e \<and> e \<noteq> MAX_ID \<longrightarrow>
            \<not> is_alive (kill_entity r e) e \<and>
            (\<forall>T. \<not> has_component (kill_entity r e) T e))"
proof (intro conjI impI)
  assume "\<not> is_alive r e"
  then show "kill_entity r e = r" by simp
next
  assume a: "is_alive r e \<and> e \<noteq> MAX_ID"
  then have al: "is_alive r e" and ne: "e \<noteq> MAX_ID" by simp_all
  have "free_list_inv r" using assms by (rule reachable_free_list_inv)
  then have "current r = MAX_ID \<or> dead r (current r)" by (simp add: free_list_inv_def)
  then have c: "current r \<noteq> e" using al ne dead_not_alive by metis
  have in_range: "unat e < length (entities r)" using al by (simp add: is_alive_def)
  show "\<not> is_alive (kill_entity r e) e"
    using c in_range by (simp add: is_alive_def kill_entity_fields [OF al])
  show "\<forall>T. \<not> has_component (kill_entity r e) T e"
    by (auto simp: has_component_iff kill_entity_fields [OF al] not_has_data_unbind)
qed

text \<open>
  C6. After \<open>2 ^ 32\<close> calls of \<open>make_entity\<close> the null id is an alive entity and the
  head of the empty free list at once: \<open>kill_entity\<close> leaves it alive.
\<close>

theorem kill_entity_null_id_stays_alive:
  "reachable exhausted_registry \<and> is_alive exhausted_registry MAX_ID \<and>
   is_alive (kill_entity exhausted_registry MAX_ID) MAX_ID"
  using reachable_exhausted_registry is_alive_exhausted_registry
    is_alive_kill_null_head [OF current_exhausted_registry is_alive_exhausted_registry]
  by blast

subsection \<open>Errors of bind\<close>

lemma bind_result:
  "bind s key v = Some (s', res) \<Longrightarrow> res = (if key = MAX_ID then Some INVALID_KEY else None)"
  by (auto simp: bind_cases Let_def split: if_splits)

lemma registry_bind_dead_entity_unchanged:
  assumes "registry_bind r T e v = Some (r1, Some DEAD_ENTITY)"
  shows "r1 = r"
proof (cases "is_alive r e")
  case True
  from registry_bind_managers [OF True assms] bind_result show ?thesis
    by (fastforce split: if_splits)
next
  case False
  then show ?thesis using assms by (simp add: registry_bind_dead)
qed

lemma registry_bind_invalid_key_needs_null_alive:
  assumes "registry_bind r T e v = Some (r1, Some INVALID_KEY)"
  shows "e = MAX_ID \<and> is_alive r MAX_ID \<and> 4294967296 \<le> length (entities r)"
proof -
  have al: "is_alive r e"
    using assms by (cases "is_alive r e") (simp_all add: registry_bind_dead)
  from registry_bind_managers [OF al assms] bind_result have "e = MAX_ID"
    by (fastforce split: if_splits)
  with al show ?thesis by (auto simp: is_alive_def unat_MAX_ID)
qed

text \<open>
  C7. After \<open>2 ^ 32\<close> calls of \<open>make_entity\<close>, binding a component of a type that has no
  store to the null id returns \<open>INVALID_KEY\<close> and leaves a new, empty store for that
  type behind.
\<close>

theorem registry_bind_invalid_key_installs_store:
  "reachable exhausted_registry \<and>
   component_managers exhausted_registry ''Vec2'' = None \<and>
   registry_bind exhausted_registry ''Vec2'' MAX_ID 20 =
     Some (exhausted_registry\<lparr>component_managers := [''Vec2'' \<mapsto> SparseSet]\<rparr>,
           Some INVALID_KEY)"
proof -
  have cm: "component_managers exhausted_registry = Map.empty"
    by (simp add: exhausted_registry_def make_entities_Registry)
  have "registry_bind exhausted_registry ''Vec2'' MAX_ID 20 =
     Some (exhausted_registry\<lparr>component_managers := [''Vec2'' \<mapsto> SparseSet]\<rparr>,
           Some INVALID_KEY)"
    by (simp add: registry_bind_alive [OF is_alive_exhausted_registry] cm bind_cases)
  then show ?thesis
    using reachable_exhausted_registry managers_exhausted_registry by blast
qed

subsection \<open>Enumerating the entities of a store\<close>

lemma word_of_nat_less_id:
  assumes "i < j" "j < 4294967296"
  shows "(word_of_nat i :: id_t) < word_of_nat j"
  using assms by (simp add: word_less_nat_alt unat_of_nat_id)

lemma sorted_filter_slots:
  assumes "\<forall>i < length xs. P (xs ! i) \<longrightarrow> xs ! i = (word_of_nat i :: id_t)"
    and "length xs \<le> 4294967296"
  shows "sorted_wrt (<) (filter P xs)"
  using assms
proof (induction xs rule: rev_induct)
  case Nil
  show ?case by simp
next
  case (snoc x xs)
  have slots: "\<forall>i < length xs. P (xs ! i) \<longrightarrow> xs ! i = word_of_nat i"
    using snoc.prems(1) by (auto simp: nth_append split: if_splits)
  have len: "length xs < 4294967296" using snoc.prems(2) by simp
  have IH: "sorted_wrt (<) (filter P xs)"
    using snoc.IH slots len by simp
  show ?case
  proof (cases "P x")
    case False
    then show ?thesis using IH by simp
  next
    case True
    then have x: "x = word_of_nat (length xs)"
      using snoc.prems(1) by (auto simp: nth_append)
    have "y < x" if "y \<in> set (filter P xs)" for y
    proof -
      from that obtain i where i: "i < length xs" "xs ! i = y" "P y"
        by (auto simp: in_set_conv_nth)
      then have "y = word_of_nat i" using slots by auto
      then show ?thesis using x i(1) len by (simp add: word_of_nat_less_id)
    qed
    then show ?thesis using True IH by (simp add: sorted_wrt_append)
  qed
qed

lemma reachable_bound_slot:
  assumes "reachable r" "i < length (entities r)" "i < 4294967296"
    and "has_component r T (entities r ! i)"
  shows "entities r ! i = word_of_nat i"
proof (rule ccontr)
  let ?e = "word_of_nat i :: id_t"
  assume ne: "entities r ! i \<noteq> ?e"
  have u: "unat ?e = i" using assms(3) by (simp add: unat_of_nat_id)
  then have d: "dead r ?e" using assms(2) ne by (simp add: dead_def)
  have "link r ?e = entities r ! i" using u by (simp add: link_def)
  with reachable_link_unbound [OF assms(1) d, of T] assms(4)
  show False by simp
qed

lemma not_distinct_filter:
  assumes "i < j" "j < length xs" "xs ! i = xs ! j" "P (xs ! i)"
  shows "\<not> distinct (filter P xs)"
proof -
  have xs: "xs = take j xs @ xs ! j # drop (Suc j) xs"
    using assms(2) by (rule id_take_nth_drop)
  have "take j xs ! i = xs ! j" using assms by simp
  then have "xs ! j \<in> set (take j xs)"
    using assms(1,2) by (metis length_take min.absorb2 less_imp_le nth_mem)
  then have "xs ! j \<in> set (filter P (take j xs))" using assms(3,4) by simp
  moreover have "filter P xs =
      filter P (take j xs) @ xs ! j # filter P (drop (Suc j) xs)"
    using assms(3,4) by (subst xs) simp
  ultimately show ?thesis by simp
qed

text \<open>
  In every reachable registry state \<open>entities_with_component\<close> is empty when the type
  has no store, and otherwise lists exactly the alive entities the store has; and when
  the entity array has at most \<open>2 ^ 32\<close> slots, it lists them in strictly ascending
  order (so no id is listed twice).
\<close>

lemma entities_with_component_sorted_and_exact:
  assumes "reachable r"
  shows "(component_managers r T = None \<longrightarrow> entities_with_component r T = []) \<and>
         set (entities_with_component r T) = {e. is_alive r e \<and> has_component r T e} \<and>
         (length (entities r) \<le> 4294967296 \<longrightarrow>
            sorted_wrt (<) (entities_with_component r T))"
proof (cases "component_managers r T")
  case None
  then show ?thesis
    by (simp add: entities_with_component_def get_component_manager_def has_component_iff)
next
  case (Some s)
  have ewc: "entities_with_component r T = filter (has_data s) (entities r)"
    using Some by (simp add: entities_with_component_def get_component_manager_def)
  have hc: "has_component r T e = has_data s e" for e
    using Some by (simp add: has_component_iff)
  have al: "is_alive r e" if "has_data s e" for e
    using reachable_has_component_alive [OF assms, of T e] that hc by simp
  have mem: "e \<in> set (entities r)" if "is_alive r e" for e
    using that by (metis is_alive_def nth_mem)
  have set_eq: "set (entities_with_component r T) = {e. is_alive r e \<and> has_component r T e}"
    unfolding ewc using al mem hc by auto
  have "sorted_wrt (<) (filter (has_data s) (entities r))"
    if len: "length (entities r) \<le> 4294967296"
  proof -
    have "\<forall>i < length (entities r). has_data s (entities r ! i) \<longrightarrow>
            entities r ! i = word_of_nat i"
      using reachable_bound_slot [OF assms, of _ T] len hc by simp
    then show ?thesis using len by (rule sorted_filter_slots)
  qed
  then show ?thesis using Some set_eq ewc by simp
qed

lemma wrapped_slot:
  "4294967296 < n \<Longrightarrow> (map word_of_nat [0..<n] :: id_t list) ! 4294967296 = 0"
  by (simp only: nth_map length_upt nth_upt diff_zero add_0 of_nat_numeral) simp

lemma first_slot: "0 < n \<Longrightarrow> (map word_of_nat [0..<n] :: id_t list) ! 0 = 0"
  by (simp only: nth_map length_upt nth_upt diff_zero add_0) simp

lemma entities_with_component_wrapped:
  assumes "4294967296 < n"
  shows "\<not> distinct (entities_with_component
            ((snd (make_entities n Registry))
               \<lparr>component_managers := [T \<mapsto> \<lparr>sparse = [0], dense = [0], data = [v]\<rparr>]\<rparr>) T)"
proof -
  let ?r = "(snd (make_entities n Registry))
               \<lparr>component_managers := [T \<mapsto> \<lparr>sparse = [0], dense = [0], data = [v]\<rparr>]\<rparr>"
  let ?s = "\<lparr>sparse = [0], dense = [0], data = [v]\<rparr>"
  let ?xs = "map word_of_nat [0..<n] :: id_t list"
  have pos: "0 < n" using assms by simp
  have ents: "entities ?r = ?xs"
    by (simp add: make_entities_Registry)
  have cm: "component_managers ?r T = Some ?s"
    by simp
  have ewc: "entities_with_component ?r T = filter (has_data ?s) ?xs"
    using cm ents by (simp add: entities_with_component_def get_component_manager_def)
  have j: "4294967296 < length ?xs" using assms by (simp only: length_map length_upt diff_zero)
  have eq: "?xs ! 0 = ?xs ! 4294967296"
    by (simp only: first_slot [OF pos] wrapped_slot [OF assms])
  have h0: "has_data ?s 0" by (simp add: has_data_iff MAX_ID_def)
  have p: "has_data ?s (?xs ! 0)"
    by (simp only: first_slot [OF pos] h0)
  have "\<not> distinct (filter (has_data ?s) ?xs)"
    by (rule not_distinct_filter [where P = "has_data ?s" and i = 0 and j = 4294967296,
          OF _ j eq p]) simp
  then show ?thesis unfolding ewc .
qed

text \<open>
  C9. After \<open>2 ^ 32 + 1\<close> calls of \<open>make_entity\<close> the last slot of the entity array holds
  the id 0 again: once entity 0 has a component, \<open>entities_with_component\<close> lists it
  twice.
\<close>

theorem entities_with_component_lists_entity_twice:
  "reachable wrapped_registry \<and>
   registry_bind (snd (make_entities 4294967297 Registry)) ''Vec2'' 0 20 =
     Some (wrapped_registry, None) \<and>
   \<not> distinct (entities_with_component wrapped_registry ''Vec2'')"
proof -
  have "\<not> distinct (entities_with_component wrapped_registry ''Vec2'')"
    unfolding wrapped_registry_def by (rule entities_with_component_wrapped) simp
  then show ?thesis using reachable_wrapped_registry wrapped_registry_run by blast
qed

subsection \<open>Recycling\<close>

lemma make_entity_alloc_cong:
  assumes "entities r' = entities r" "current r' = current r"
  shows "fst (make_entity r') = fst (make_entity r)"
    and "entities (snd (make_entity r')) = entities (snd (make_entity r))"
    and "current (snd (make_entity r')) = current (snd (make_entity r))"
  using assms by (simp_all add: make_entity_def)

lemma make_entities_alloc_cong:
  assumes "entities r' = entities r" "current r' = current r"
  shows "fst (make_entities n r') = fst (make_entities n r) \<and>
         entities (snd (make_entities n r')) = entities (snd (make_entities n r)) \<and>
         current (snd (make_entities n r')) = current (snd (make_entities n r))"
  using assms
proof (induction n arbitrary: r r')
  case 0
  then show ?case by simp
next
  case (Suc n)
  note c = make_entity_alloc_cong [OF Suc.prems]
  from Suc.IH [OF c(2,3)] c(1) show ?case
    by (simp add: split_beta Let_def)
qed

lemma make_entities_add:
  "make_entities (n + m) r =
     (fst (make_entities n r) @ fst (make_entities m (snd (make_entities n r))),
      snd (make_entities m (snd (make_entities n r))))"
  by (induction n arbitrary: r) (simp_all add: split_beta Let_def)

lemma kill_then_make:
  assumes "is_alive r k" "k \<noteq> MAX_ID"
  shows "fst (make_entity (kill_entity r k)) = k"
    and "entities (snd (make_entity (kill_entity r k))) = entities r"
    and "current (snd (make_entity (kill_entity r k))) = current r"
proof -
  have c: "current (kill_entity r k) = k" and
    e: "entities (kill_entity r k) = (entities r)[unat k := current r]"
    using assms(1) by (simp_all add: kill_entity_fields)
  have m: "make_entity (kill_entity r k) = recycle_entity (kill_entity r k)"
    using c assms(2) by (simp add: make_entity_def)
  have in_range: "unat k < length (entities r)" and self: "entities r ! unat k = k"
    using assms(1) by (simp_all add: is_alive_def)
  show "fst (make_entity (kill_entity r k)) = k" by (simp add: m c)
  show "entities (snd (make_entity (kill_entity r k))) = entities r"
    using self by (simp add: m c e) (metis list_update_id)
  show "current (snd (make_entity (kill_entity r k))) = current r"
    using in_range by (simp add: m c e)
qed

lemma kill_all_then_make_entities:
  assumes "distinct ks" "\<forall>k \<in> set ks. is_alive r k \<and> k \<noteq> MAX_ID"
  shows "fst (make_entities (length ks) (kill_all r ks)) = rev ks \<and>
         entities (snd (make_entities (length ks) (kill_all r ks))) = entities r \<and>
         current (snd (make_entities (length ks) (kill_all r ks))) = current r"
  using assms
proof (induction ks arbitrary: r)
  case Nil
  show ?case by simp
next
  case (Cons k ks)
  let ?r1 = "kill_entity r k"
  let ?mid = "snd (make_entities (length ks) (kill_all ?r1 ks))"
  have k: "is_alive r k" "k \<noteq> MAX_ID" using Cons.prems(2) by simp_all
  have "\<forall>x \<in> set ks. is_alive ?r1 x \<and> x \<noteq> MAX_ID"
    using Cons.prems by (auto intro: is_alive_kill_other)
  with Cons.IH [of ?r1] Cons.prems(1)
  have ih: "fst (make_entities (length ks) (kill_all ?r1 ks)) = rev ks"
    "entities ?mid = entities ?r1" "current ?mid = current ?r1"
    by simp_all
  note last_make = make_entity_alloc_cong [OF ih(2,3)]
  note km = kill_then_make [OF k]
  have split: "make_entities (length ks + 1) (kill_all ?r1 ks) =
      (fst (make_entities (length ks) (kill_all ?r1 ks)) @ fst (make_entities 1 ?mid),
       snd (make_entities 1 ?mid))"
    by (rule make_entities_add)
  have one: "fst (make_entities 1 ?mid) = [fst (make_entity ?mid)]"
    "snd (make_entities 1 ?mid) = snd (make_entity ?mid)"
    by (simp_all add: split_beta Let_def)
  have res: "make_entities (length ks + 1) (kill_all ?r1 ks) =
      (rev ks @ [k], snd (make_entity ?mid))"
    unfolding split one ih(1) last_make(1) km(1) by (rule refl)
  have eq0: "make_entities (length (k # ks)) (kill_all r (k # ks)) =
      make_entities (length ks + 1) (kill_all ?r1 ks)"
    by simp
  show ?case
    unfolding eq0 res by (simp add: last_make km)
qed

lemma unat_fresh_ids:
  assumes "n + m \<le> 4294967295"
  shows "map unat (map word_of_nat [n..<n + m] :: id_t list) = [n..<n + m]"
proof -
  have "unat (word_of_nat x :: id_t) = x" if "x \<in> set [n..<n + m]" for x
    using that assms by (simp add: unat_of_nat_id)
  then have "map (\<lambda>x. unat (word_of_nat x :: id_t)) [n..<n + m] = map (\<lambda>x. x) [n..<n + m]"
    by (intro map_cong) simp_all
  then show ?thesis by (simp add: comp_def)
qed

text \<open>
  C5. After the kills \<open>k1, \<dots>, kn\<close> of distinct alive entities other than the null id,
  with no \<open>make_entity\<close> in between, the next \<open>n\<close> calls of \<open>make_entity\<close> return
  \<open>kn, \<dots>, k1\<close>. If moreover the free list was empty before the kills, and the entity
  array of length \<open>len\<close> has room for \<open>m\<close> more ids below the null id, the \<open>m\<close> calls
  after those return the ids \<open>len, len + 1, \<dots>, len + m - 1\<close> of new slots.
\<close>

theorem recycling_is_lifo_then_fresh:
  assumes "distinct ks" "\<forall>k \<in> set ks. is_alive r k \<and> k \<noteq> MAX_ID"
  shows "fst (make_entities (length ks) (kill_all r ks)) = rev ks \<and>
         (current r = MAX_ID \<and> length (entities r) + m \<le> 4294967295 \<longrightarrow>
            take (length ks) (fst (make_entities (length ks + m) (kill_all r ks))) = rev ks \<and>
            map unat (drop (length ks) (fst (make_entities (length ks + m) (kill_all r ks)))) =
              [length (entities r)..<length (entities r) + m])"
proof -
  let ?mid = "snd (make_entities (length ks) (kill_all r ks))"
  let ?len = "length (entities r)"
  note h = kill_all_then_make_entities [OF assms]
  have split: "fst (make_entities (length ks + m) (kill_all r ks)) =
      rev ks @ fst (make_entities m ?mid)"
    using h by (simp add: make_entities_add)
  have fresh: "fst (make_entities m ?mid) = map word_of_nat [?len..<?len + m]"
    if "current r = MAX_ID"
  proof -
    have "current ?mid = MAX_ID" using h that by simp
    from make_entities_fresh [OF this, of m] h show ?thesis by simp
  qed
  have "take (length ks) (fst (make_entities (length ks + m) (kill_all r ks))) = rev ks \<and>
        map unat (drop (length ks) (fst (make_entities (length ks + m) (kill_all r ks)))) =
          [?len..<?len + m]"
    if "current r = MAX_ID" "?len + m \<le> 4294967295"
    unfolding split using fresh [OF that(1)] unat_fresh_ids [OF that(2)] by simp
  then show ?thesis using h by blast
qed

theorem recycling_is_lifo_then_fresh_witness:
  "distinct [2, 0, 1, 3 :: id_t] \<and>
   is_alive (snd (make_entities 4 (Registry :: nat registry))) 2 \<and>
   is_alive (snd (make_entities 4 (Registry :: nat registry))) 0 \<and>
   is_alive (snd (make_entities 4 (Registry :: nat registry))) 1 \<and>
   is_alive (snd (make_entities 4 (Registry :: nat registry))) 3 \<and>
   current (snd (make_entities 4 (Registry :: nat registry))) = MAX_ID \<and>
   length (entities (snd (make_entities 4 (Registry :: nat registry)))) + 2 \<le> 4294967295 \<and>
   fst (make_entities (length [2, 0, 1, 3 :: id_t])
          (kill_all (snd (make_entities 4 (Registry :: nat registry))) [2, 0, 1, 3])) =
     [3, 1, 0, 2] \<and>
   fst (make_entities (length [2, 0, 1, 3 :: id_t] + 2)
          (kill_all (snd (make_entities 4 (Registry :: nat registry))) [2, 0, 1, 3])) =
     [3, 1, 0, 2, 4, 5] \<and>
   map unat (drop (length [2, 0, 1, 3 :: id_t])
     (fst (make_entities (length [2, 0, 1, 3 :: id_t] + 2)
          (kill_all (snd (make_entities 4 (Registry :: nat registry))) [2, 0, 1, 3])))) =
     [4, 5]"
proof -
  let ?r = "snd (make_entities 4 (Registry :: nat registry))"
  let ?ids = "fst (make_entities (length [2, 0, 1, 3 :: id_t] + 2) (kill_all ?r [2, 0, 1, 3]))"
  have d: "distinct [2, 0, 1, 3 :: id_t]" by simp
  have al: "is_alive ?r 2" "is_alive ?r 0" "is_alive ?r 1" "is_alive ?r 3" by code_simp+
  have ne: "(2 :: id_t) \<noteq> MAX_ID" "(0 :: id_t) \<noteq> MAX_ID" "(1 :: id_t) \<noteq> MAX_ID"
    "(3 :: id_t) \<noteq> MAX_ID" by (simp_all add: MAX_ID_def)
  have c: "current ?r = MAX_ID" by code_simp
  have len: "length (entities ?r) = 4" by code_simp
  then have room: "length (entities ?r) + 2 \<le> 4294967295" by simp
  have pre: "\<forall>k \<in> set [2, 0, 1, 3]. is_alive ?r k \<and> k \<noteq> MAX_ID"
    using al ne by simp
  have rhs1: "rev [2, 0, 1, 3 :: id_t] = [3, 1, 0, 2]" by simp
  have rhs2: "[length (entities ?r)..<length (entities ?r) + 2] = [4, 5]"
    unfolding len by (simp add: upt_rec)
  from recycling_is_lifo_then_fresh [OF d pre, of 2] c room
  have t: "fst (make_entities (length [2, 0, 1, 3 :: id_t]) (kill_all ?r [2, 0, 1, 3])) =
          rev [2, 0, 1, 3]"
    "take (length [2, 0, 1, 3 :: id_t]) ?ids = rev [2, 0, 1, 3]"
    "map unat (drop (length [2, 0, 1, 3 :: id_t]) ?ids) =
       [length (entities ?r)..<length (entities ?r) + 2]"
    by blast+
  have first: "fst (make_entities (length [2, 0, 1, 3 :: id_t]) (kill_all ?r [2, 0, 1, 3])) =
          [3, 1, 0, 2]"
    using t(1) unfolding rhs1 .
  have fresh: "map unat (drop (length [2, 0, 1, 3 :: id_t]) ?ids) = [4, 5]"
    using t(3) unfolding rhs2 .
  have all: "?ids = [3, 1, 0, 2, 4, 5]" by code_simp
  show ?thesis using d al c room first all fresh by blast
qed

text \<open>
  With entity 0 already on the free list, killing entity 1 and calling \<open>make_entity\<close>
  twice returns 1 and then 0: the second id is a recycled one, not a new slot of the
  entity array, whose length is 2.
\<close>

theorem make_entity_after_recycling_not_fresh:
  "is_alive recycling_scenario 1 \<and> length (entities recycling_scenario) = 2 \<and>
   fst (make_entities 2 (kill_all recycling_scenario [1])) = [1, 0]"
  by code_simp

subsection \<open>Queries\<close>

lemma set_difference_subset: "set (set_difference xs ys) \<subseteq> set xs"
  by (induction xs ys rule: set_difference.induct) auto

lemma has_component_get_component:
  "has_component r T e \<Longrightarrow> get_component r T e \<noteq> None"
  by (auto simp: has_component_def get_component_def get_data_def split: option.splits)

lemma with_components_has:
  "e \<in> set (with_components r W) \<Longrightarrow> \<forall>T \<in> set W. has_component r T e"
  by (auto simp: with_components_def has_components_def list_all_iff split: if_splits)

lemma required_entities_has:
  assumes "e \<in> set (required_entities r W B)"
  shows "\<forall>T \<in> set W. has_component r T e"
  using assms set_difference_subset with_components_has
  unfolding required_entities_def Let_def by blast

lemma convert_and_unwrapp_present:
  assumes "\<forall>T \<in> set Ts. get_component r T e \<noteq> None"
  shows "convert_and_unwrapp r Ts e = Some (map (\<lambda>T. the (get_component r T e)) Ts)"
  using assms by (induction Ts) auto

lemma transform_present:
  assumes "\<forall>x \<in> set xs. f x = Some (g x)"
  shows "transform f xs = Some (map g xs)"
  using assms by (induction xs) auto

lemma set_difference_sorted:
  assumes "sorted_wrt (<) xs" "sorted_wrt (<) ys"
  shows "set_difference xs ys = filter (\<lambda>x. x \<notin> set ys) xs"
  using assms
proof (induction xs ys rule: set_difference.induct)
  case (1 ys)
  show ?case by simp
next
  case (2 x xs)
  show ?case by simp
next
  case (3 x xs y ys)
  have xs: "\<forall>z \<in> set xs. x < z" and ys: "\<forall>z \<in> set ys. y < z"
    and sx: "sorted_wrt (<) xs" and sy: "sorted_wrt (<) ys"
    using "3.prems" by simp_all
  show ?case
  proof (cases "x < y")
    case True
    then have "x \<notin> set (y # ys)" using ys by auto
    with True "3.IH"(1) "3.prems" sx show ?thesis by simp
  next
    case False
    show ?thesis
    proof (cases "y < x")
      case True
      then have "y \<notin> set (x # xs)" using xs by auto
      then have "filter (\<lambda>z. z \<notin> set (y # ys)) (x # xs) = filter (\<lambda>z. z \<notin> set ys) (x # xs)"
        by (intro filter_cong) auto
      with True False "3.IH"(2) "3.prems" sy show ?thesis by simp
    next
      case nlt: False
      with False have eq: "x = y" by simp
      have "filter (\<lambda>z. z \<notin> set (y # ys)) xs = filter (\<lambda>z. z \<notin> set ys) xs"
        using xs eq by (intro filter_cong) auto
      with eq False "3.IH"(3) sx sy show ?thesis by simp
    qed
  qed
qed

lemma with_components_sorted:
  assumes "reachable r" "length (entities r) \<le> 4294967296"
  shows "sorted_wrt (<) (with_components r W)"
proof (cases W)
  case Nil
  then show ?thesis by (simp add: with_components_def)
next
  case (Cons T Ts)
  have "\<forall>i < length (entities r). has_components r W (entities r ! i) \<longrightarrow>
          entities r ! i = word_of_nat i"
    using reachable_bound_slot [OF assms(1), of _ T] assms(2) Cons
    by (simp add: has_components_def)
  then have "sorted_wrt (<) (filter (has_components r W) (entities r))"
    using assms(2) by (rule sorted_filter_slots)
  then show ?thesis using Cons by (simp add: with_components_def)
qed

lemma with_components_set:
  assumes "reachable r" "W \<noteq> []"
  shows "set (with_components r W) = {e. is_alive r e \<and> (\<forall>T \<in> set W. has_component r T e)}"
proof -
  obtain T where T: "T \<in> set W" using assms(2) by (cases W) auto
  have "is_alive r e" if "\<forall>T \<in> set W. has_component r T e" for e
    using that T reachable_has_component_alive [OF assms(1)] by blast
  moreover have "e \<in> set (entities r)" if "is_alive r e" for e
    using that by (metis is_alive_def nth_mem)
  ultimately show ?thesis
    using assms(2) by (auto simp: with_components_def has_components_def list_all_iff)
qed

text \<open>
  What the query is built from, in a reachable registry of at most \<open>2 ^ 32\<close> slots:
  the alive entities that have every must-have type, without those that have every
  must-not-have type of a non-empty list, in ascending order.
\<close>

lemma required_entities_exact:
  assumes "reachable r" "length (entities r) \<le> 4294967296" "W \<noteq> []"
  shows "set (required_entities r W B) =
           {e. is_alive r e \<and> (\<forall>T \<in> set W. has_component r T e) \<and>
               \<not> (B \<noteq> [] \<and> (\<forall>T \<in> set B. has_component r T e))}"
    and "sorted_wrt (<) (required_entities r W B)"
proof -
  have eq: "required_entities r W B =
      filter (\<lambda>e. e \<notin> set (with_components r B)) (with_components r W)"
    unfolding required_entities_def Let_def
    by (intro set_difference_sorted with_components_sorted assms(1,2))
  have B: "e \<in> set (with_components r B) \<longleftrightarrow>
      B \<noteq> [] \<and> is_alive r e \<and> (\<forall>T \<in> set B. has_component r T e)" for e
    using with_components_set [OF assms(1), of B]
    by (cases "B = []") (auto simp: with_components_def)
  show "set (required_entities r W B) =
           {e. is_alive r e \<and> (\<forall>T \<in> set W. has_component r T e) \<and>
               \<not> (B \<noteq> [] \<and> (\<forall>T \<in> set B. has_component r T e))}"
    unfolding eq using with_components_set [OF assms(1,3)] B by auto
  show "sorted_wrt (<) (required_entities r W B)"
    unfolding eq using with_components_sorted [OF assms(1,2), of W]
    by (simp add: sorted_wrt_filter)
qed

lemma required_entities_no_must_have: "required_entities r [] B = []"
  by (simp add: required_entities_def with_components_def)

text \<open>
  C2. Every element of the sequence \<open>query\<close> returns is a tuple of exactly one field per
  must-have type, in the order of the type list; the field of type \<open>T\<close> is the \<open>T\<close>
  component bound to the id at the same position of \<open>required_entities\<close>, and every
  such component is present. The tuple has no field for the entity id.
\<close>

theorem query_tuples_are_the_components:
  "query r W B =
     Some (map (\<lambda>e. map (\<lambda>T. the (get_component r T e)) W) (required_entities r W B)) \<and>
   (\<forall>e \<in> set (required_entities r W B). \<forall>T \<in> set W. get_component r T e \<noteq> None)"
proof -
  have present: "\<forall>e \<in> set (required_entities r W B). \<forall>T \<in> set W. get_component r T e \<noteq> None"
    using required_entities_has has_component_get_component by blast
  then have "\<forall>e \<in> set (required_entities r W B).
      convert_and_unwrapp r W e = Some (map (\<lambda>T. the (get_component r T e)) W)"
    by (simp add: convert_and_unwrapp_present)
  then have "query r W B =
     Some (map (\<lambda>e. map (\<lambda>T. the (get_component r T e)) W) (required_entities r W B))"
    unfolding query_def by (rule transform_present)
  with present show ?thesis by blast
qed

theorem query_tuples_are_the_components_witness:
  "required_entities query_scenario [''uint32_t'', ''Vec2''] [''char''] = [1] \<and>
   get_component query_scenario ''uint32_t'' 1 = Some 11 \<and>
   get_component query_scenario ''Vec2'' 1 = Some 21 \<and>
   query query_scenario [''uint32_t'', ''Vec2''] [''char''] = Some [[11, 21]]"
proof -
  have ids: "required_entities query_scenario [''uint32_t'', ''Vec2''] [''char''] = [1]"
    by code_simp
  have g: "get_component query_scenario ''uint32_t'' 1 = Some 11"
    "get_component query_scenario ''Vec2'' 1 = Some 21"
    by code_simp+
  from query_tuples_are_the_components
    [of query_scenario "[''uint32_t'', ''Vec2'']" "[''char'']"]
  have "query query_scenario [''uint32_t'', ''Vec2''] [''char''] = Some [[11, 21]]"
    unfolding ids by (simp add: g)
  with ids g show ?thesis by blast
qed

text \<open>
  The query for the types \<^verbatim>\<open>uint32_t\<close> and \<^verbatim>\<open>Vec2\<close> is built from the ids 0 and 1 and
  returns two tuples of two fields each, the two components: no field holds the id.
\<close>

theorem query_tuples_carry_no_id:
  "calls Registry query_scenario_calls = Some query_scenario \<and>
   required_entities query_scenario [''uint32_t'', ''Vec2''] [] = [0, 1] \<and>
   query query_scenario [''uint32_t'', ''Vec2''] [] = Some [[10, 20], [11, 21]]"
proof -
  have "required_entities query_scenario [''uint32_t'', ''Vec2''] [] = [0, 1]"
    "query query_scenario [''uint32_t'', ''Vec2''] [] = Some [[10, 20], [11, 21]]"
    by code_simp+
  then show ?thesis using query_scenario_run by blast
qed

text \<open>
  C1. Entity 0 has a \<^verbatim>\<open>char\<close> component, and the query that must have \<^verbatim>\<open>uint32_t\<close> and
  \<^verbatim>\<open>Vec2\<close> and must not have \<^verbatim>\<open>char\<close> or \<^verbatim>\<open>Vec3\<close> still returns it: only the entities
  that have every excluded type are left out.
\<close>

theorem query_keeps_entity_with_an_excluded_component:
  "calls Registry query_scenario_calls = Some query_scenario \<and>
   has_component query_scenario ''char'' 0 \<and>
   with_components query_scenario [''char'', ''Vec3''] = [] \<and>
   required_entities query_scenario [''uint32_t'', ''Vec2''] [''char'', ''Vec3''] = [0, 1]"
proof -
  have "has_component query_scenario ''char'' 0"
    "with_components query_scenario [''char'', ''Vec3''] = []"
    "required_entities query_scenario [''uint32_t'', ''Vec2''] [''char'', ''Vec3''] = [0, 1]"
    by code_simp+
  then show ?thesis using query_scenario_run by blast
qed

end
